theory Spec2Isabelle
  imports Main "HOL-Library.Sublist" "HOL-Library.Char_ord" "HOL-Library.List_Lexorder"
begin

section \<open>Python strings\<close>

text \<open>
  A Python \<open>str\<close> is modelled as a HOL \<open>string\<close>; a character is read as the code
  point of the same number, so the model covers the code points U+0000 to U+00FF.
  The library functions the program calls are written out below as CPython defines them
  on that range.
\<close>

abbreviation LF :: char where "LF \<equiv> CHR 0x0A"
abbreviation CR :: char where "CR \<equiv> CHR 0x0D"

text \<open>\<open>str.isspace\<close> on one character, which is also what \<open>\s\<close> matches in a \<open>str\<close> pattern.\<close>

definition is_space :: "char \<Rightarrow> bool" where
  "is_space c = (c \<in> set [CHR 0x09, LF, CHR 0x0B, CHR 0x0C, CR, CHR 0x1C, CHR 0x1D,
                           CHR 0x1E, CHR 0x1F, CHR 0x20, CHR 0x85, CHR 0xA0])"

text \<open>The line boundaries of \<open>str.splitlines\<close>.\<close>

definition is_linebreak :: "char \<Rightarrow> bool" where
  "is_linebreak c = (c \<in> set [LF, CHR 0x0B, CHR 0x0C, CR, CHR 0x1C, CHR 0x1D, CHR 0x1E, CHR 0x85])"

text \<open>The classes \<open>\d\<close>, \<open>[A-Z]\<close> and \<open>[a-zA-Z]\<close>.\<close>

definition is_digit :: "char \<Rightarrow> bool" where
  "is_digit c = (48 \<le> (of_char c :: nat) \<and> (of_char c :: nat) \<le> 57)"

definition is_upper :: "char \<Rightarrow> bool" where
  "is_upper c = (65 \<le> (of_char c :: nat) \<and> (of_char c :: nat) \<le> 90)"

definition is_alpha :: "char \<Rightarrow> bool" where
  "is_alpha c = (is_upper c \<or> (97 \<le> (of_char c :: nat) \<and> (of_char c :: nat) \<le> 122))"

text \<open>\<open>str.lower\<close>: A to Z, and the upper-case letters U+00C0 to U+00DE except U+00D7.\<close>

definition lower_char :: "char \<Rightarrow> char" where
  "lower_char c =
     (let n = (of_char c :: nat)
      in if (65 \<le> n \<and> n \<le> 90) \<or> (192 \<le> n \<and> n \<le> 222 \<and> n \<noteq> 215)
         then char_of (n + 32) else c)"

definition lower :: "string \<Rightarrow> string" where
  "lower s = map lower_char s"

text \<open>\<open>str.strip()\<close> and \<open>str.rstrip(':')\<close>.\<close>

definition strip :: "string \<Rightarrow> string" where
  "strip s = rev (dropWhile is_space (rev (dropWhile is_space s)))"

definition rstrip_colon :: "string \<Rightarrow> string" where
  "rstrip_colon s = rev (dropWhile (\<lambda>c. c = CHR '':'') (rev s))"

text \<open>\<open>str.split()\<close>: the maximal runs of non-whitespace characters.\<close>

fun split_acc :: "string \<Rightarrow> string \<Rightarrow> string list" where
  "split_acc w [] = (if w = [] then [] else [w])"
| "split_acc w (c # cs) =
     (if is_space c then (if w = [] then split_acc [] cs else w # split_acc [] cs)
      else split_acc (w @ [c]) cs)"

definition split :: "string \<Rightarrow> string list" where
  "split s = split_acc [] s"

text \<open>
  \<open>str.splitlines()\<close>: a carriage return followed by a line feed is one boundary, and
  a boundary at the very end opens no further line.
\<close>

fun splitlines_acc :: "string \<Rightarrow> string \<Rightarrow> string list" where
  "splitlines_acc cur [] = (if cur = [] then [] else [cur])"
| "splitlines_acc cur (c # cs) =
     (if is_linebreak c
      then cur # splitlines_acc [] (if c = CR \<and> take 1 cs = [LF] then drop 1 cs else cs)
      else splitlines_acc (cur @ [c]) cs)"

definition splitlines :: "string \<Rightarrow> string list" where
  "splitlines s = splitlines_acc [] s"

text \<open>\<open>sep.join(xs)\<close>.\<close>

fun join :: "string \<Rightarrow> string list \<Rightarrow> string" where
  "join sep [] = []"
| "join sep [x] = x"
| "join sep (x # y # ys) = x @ sep @ join sep (y # ys)"

text \<open>\<open>p in s\<close> on strings: \<open>p\<close> occurs in \<open>s\<close> as a contiguous substring.\<close>

fun contains :: "string \<Rightarrow> string \<Rightarrow> bool" where
  "contains p [] = (p = [])"
| "contains p (c # cs) = (prefix p (c # cs) \<or> contains p cs)"

text \<open>\<open>re.sub(p, '', s)\<close> for a pattern \<open>p\<close> that is a literal string.\<close>

function remove_all :: "string \<Rightarrow> string \<Rightarrow> string" where
  "remove_all p [] = []"
| "remove_all p (c # cs) =
     (if p \<noteq> [] \<and> prefix p (c # cs) then remove_all p (drop (length p) (c # cs))
      else c # remove_all p cs)"
  by pat_completeness auto
termination
  by (relation "measure (\<lambda>(p, s). length s)") auto

section \<open>The heading patterns\<close>

text \<open>
  Each compiled pattern is modelled by the function that \<open>re.match\<close> computes for it:
  \<open>None\<close> when the line does not match, otherwise the list of the groups of the match
  object (\<open>group m 1\<close> is \<open>m.group(1)\<close>). In these patterns every greedy repetition is
  followed by a token outside its class, so the match is the one where each repetition
  takes its maximal run. \<open>$\<close> matches at the end of the string and before a final line
  feed; \<open>.\<close> matches every character but the line feed.
\<close>

type_synonym match = "string list"

definition group :: "match \<Rightarrow> nat \<Rightarrow> string" where
  "group m n = m ! (n - 1)"

text \<open>\<^verbatim>\<open>HEADING_RE = re.compile(r'^(#{1,6})\s+(.*)$')\<close>\<close>

definition HEADING_RE_match :: "string \<Rightarrow> match option" where
  "HEADING_RE_match line =
     (let hashes = takeWhile (\<lambda>c. c = CHR ''#'') line;
          rest = dropWhile (\<lambda>c. c = CHR ''#'') line;
          body = dropWhile is_space rest;
          g2 = (if body \<noteq> [] \<and> last body = LF then butlast body else body)
      in if 1 \<le> length hashes \<and> length hashes \<le> 6 \<and> rest \<noteq> [] \<and> is_space (hd rest)
            \<and> LF \<notin> set g2
         then Some [hashes, g2] else None)"

text \<open>\<^verbatim>\<open>BOLD_HEADING_RE = re.compile(r'^\*\*([^*]+)\*\*\s*$')\<close>\<close>

definition BOLD_HEADING_RE_match :: "string \<Rightarrow> match option" where
  "BOLD_HEADING_RE_match line =
     (let inner = takeWhile (\<lambda>c. c \<noteq> CHR ''*'') (drop 2 line);
          rest = dropWhile (\<lambda>c. c \<noteq> CHR ''*'') (drop 2 line)
      in if take 2 line = ''**'' \<and> inner \<noteq> [] \<and> take 2 rest = ''**''
            \<and> list_all is_space (drop 2 rest)
         then Some [inner] else None)"

text \<open>\<^verbatim>\<open>COLON_HEADING_RE = re.compile(r'^([A-Z][a-zA-Z\s]{3,}):\s*$')\<close>\<close>

definition COLON_HEADING_RE_match :: "string \<Rightarrow> match option" where
  "COLON_HEADING_RE_match line =
     (let g1 = takeWhile (\<lambda>c. c \<noteq> CHR '':'') line;
          rest = dropWhile (\<lambda>c. c \<noteq> CHR '':'') line
      in if g1 \<noteq> [] \<and> is_upper (hd g1) \<and> list_all (\<lambda>c. is_alpha c \<or> is_space c) (tl g1)
            \<and> 3 \<le> length (tl g1) \<and> rest \<noteq> [] \<and> list_all is_space (tl rest)
         then Some [g1] else None)"

text \<open>\<^verbatim>\<open>DATE_HEADING_RE = re.compile(r'^(20\d{2}\s+\d{2}\s+\d{2})$')\<close>\<close>

definition two_digits :: "string \<Rightarrow> string option" where
  "two_digits s =
     (case s of a # b # r \<Rightarrow> (if is_digit a \<and> is_digit b then Some r else None) | _ \<Rightarrow> None)"

definition spaces1 :: "string \<Rightarrow> string option" where
  "spaces1 s = (if s \<noteq> [] \<and> is_space (hd s) then Some (dropWhile is_space s) else None)"

definition DATE_HEADING_RE_match :: "string \<Rightarrow> match option" where
  "DATE_HEADING_RE_match line =
     (let g1 = (if line \<noteq> [] \<and> last line = LF then butlast line else line)
      in if take 2 g1 = ''20''
            \<and> Option.bind (Option.bind (Option.bind (Option.bind (two_digits (drop 2 g1))
                 spaces1) two_digits) spaces1) two_digits = Some []
         then Some [g1] else None)"

text \<open>\<^verbatim>\<open>NUMBERED_HEADING_RE = re.compile(r'^(\d{1,2})\.\s+([A-Z][a-zA-Z\s]{3,})$')\<close>\<close>

definition NUMBERED_HEADING_RE_match :: "string \<Rightarrow> match option" where
  "NUMBERED_HEADING_RE_match line =
     (let g1 = takeWhile is_digit line;
          rest = dropWhile is_digit line;
          g2 = dropWhile is_space (tl rest)
      in if 1 \<le> length g1 \<and> length g1 \<le> 2 \<and> take 1 rest = ''.''
            \<and> tl rest \<noteq> [] \<and> is_space (hd (tl rest))
            \<and> g2 \<noteq> [] \<and> is_upper (hd g2) \<and> list_all (\<lambda>c. is_alpha c \<or> is_space c) (tl g2)
            \<and> 3 \<le> length (tl g2)
         then Some [g1, g2] else None)"

text \<open>\<^verbatim>\<open>ALLCAPS_HEADING_RE = re.compile(r'^([A-Z][A-Z\s]{8,})$')\<close>\<close>

definition ALLCAPS_HEADING_RE_match :: "string \<Rightarrow> match option" where
  "ALLCAPS_HEADING_RE_match line =
     (if line \<noteq> [] \<and> is_upper (hd line) \<and> list_all (\<lambda>c. is_upper c \<or> is_space c) (tl line)
         \<and> 8 \<le> length (tl line)
      then Some [line] else None)"

section \<open>Classification\<close>

datatype pattern_type = Markdown | Bold | Colon | Date | Numbered | Allcaps

definition common_non_headers :: "string list" where
  "common_non_headers = [''TASK'', ''TODO'', ''NOTE'', ''IMPORTANT'', ''WARNING'', ''ERROR'']"

text \<open>
  \<open>check_header_patterns\<close> returns the pattern type, the heading text and the match
  object; the triple of \<open>None\<close> of the source is \<open>None\<close> here. A pattern whose filter
  rejects the line falls through to the next pattern, as in the source.
\<close>

definition check_header_patterns :: "string \<Rightarrow> (pattern_type \<times> string \<times> match) option" where
  "check_header_patterns line =
     (case HEADING_RE_match line of
        Some m \<Rightarrow> Some (Markdown, strip (group m 2), m)
      | None \<Rightarrow>
     (case BOLD_HEADING_RE_match line of
        Some m \<Rightarrow> Some (Bold, strip (group m 1), m)
      | None \<Rightarrow>
     (case (case COLON_HEADING_RE_match line of
              Some m \<Rightarrow>
                (let text = strip (group m 1)
                 in if 5 \<le> length text \<and> \<not> prefix ''http'' (lower text)
                    then Some (Colon, text, m) else None)
            | None \<Rightarrow> None) of
        Some r \<Rightarrow> Some r
      | None \<Rightarrow>
     (case DATE_HEADING_RE_match line of
        Some m \<Rightarrow> Some (Date, strip (group m 1), m)
      | None \<Rightarrow>
     (case (case NUMBERED_HEADING_RE_match line of
              Some m \<Rightarrow>
                (let text = strip (group m 2)
                 in if 5 \<le> length text
                    then Some (Numbered, group m 1 @ ''. '' @ text, m) else None)
            | None \<Rightarrow> None) of
        Some r \<Rightarrow> Some r
      | None \<Rightarrow>
     (case ALLCAPS_HEADING_RE_match line of
        Some m \<Rightarrow>
          (let text = strip (group m 1)
           in if \<not> list_ex (\<lambda>word. contains word text) common_non_headers
                 \<and> length (split text) \<le> 6
              then Some (Allcaps, text, m) else None)
      | None \<Rightarrow> None))))))"

section \<open>Metadata blocks and aliases\<close>

definition alias_punctuation :: "char list" where
  "alias_punctuation =
     [CHR ''('', CHR '')'', CHR ''['', CHR '']'', CHR ''{'', CHR ''}'', CHR '':'', CHR '','',
      CHR ''.'', CHR 0x22, CHR 0x27, CHR ''*'', CHR ''_'', CHR 0x60]"

definition guess_aliases_from_heading :: "string \<Rightarrow> string list" where
  "guess_aliases_from_heading text =
     (let base = map (\<lambda>c. if c \<in> set alias_punctuation then CHR '' '' else c) text;
          base = remove_all ''{.underline}'' base;
          terms = filter (\<lambda>t. 3 \<le> length t) (split base)
      in take 5 terms)"

text \<open>
  \<open>sorted(set(...))\<close> is the list without duplicates in ascending order; Python compares
  strings by code point, which is the lexicographic order of \<open>string\<close>.
\<close>

definition build_header_block :: "string \<Rightarrow> string \<Rightarrow> string list \<Rightarrow> string list \<Rightarrow> string" where
  "build_header_block doc_title rel_path breadcrumb aliases =
     (let breadcrumb_str = (if breadcrumb \<noteq> [] then join '' > '' breadcrumb else doc_title);
          aliases_str = take 120 (join '', '' (sort (remdups (filter (\<lambda>a. a \<noteq> []) aliases))));
          lines = [''[DocTitle: '' @ doc_title @ '']'',
                   ''[Path: '' @ rel_path @ '']'',
                   ''[Section: '' @ breadcrumb_str @ '']'']
                  @ (if aliases_str \<noteq> [] then [''[Aliases: '' @ aliases_str @ '']''] else [])
      in join [LF] lines @ [LF, LF])"

section \<open>Level resolution\<close>

definition meeting_keywords :: "string list" where
  "meeting_keywords =
     [''meeting'', ''discussion'', ''call'', ''update'', ''task'', ''notes'', ''todo'']"

definition determine_header_level_by_context :: "string list \<Rightarrow> pattern_type \<Rightarrow> string \<Rightarrow> nat" where
  "determine_header_level_by_context breadcrumb pattern_type text =
     (if pattern_type = Date then (if breadcrumb = [] then 1 else 2)
      else if pattern_type = Colon then
        (if list_ex (\<lambda>keyword. contains keyword (lower text)) meeting_keywords
         then (if breadcrumb \<noteq> [] then min (length breadcrumb + 1) 3 else 2)
         else (if breadcrumb = [] then 2 else min (length breadcrumb + 1) 3))
      else if pattern_type = Numbered then
        (if breadcrumb \<noteq> [] then min (length breadcrumb + 1) 4 else 2)
      else if pattern_type = Allcaps then (if breadcrumb = [] then 1 else 2)
      else 2)"

text \<open>
  The look-ahead loop of \<open>determine_bold_header_level\<close>, over the lines of the window
  \<open>range(current_index + 1, min(current_index + 10, len(lines)))\<close>; the result is
  what the variable \<open>has_indented_content\<close> holds when the loop ends. Each line is
  stripped before it is tested, as in the source.
\<close>

fun has_indented_content :: "string list \<Rightarrow> bool" where
  "has_indented_content [] = False"
| "has_indented_content (l # ls) =
     (let line = strip l
      in if line = [] then has_indented_content ls
         else if prefix ''- '' line \<or> prefix ''* '' line \<or> prefix ''  '' line then True
         else if prefix ''**'' line \<or> prefix ''#'' line then False
         else has_indented_content ls)"

definition determine_bold_header_level :: "string list \<Rightarrow> string list \<Rightarrow> nat \<Rightarrow> nat" where
  "determine_bold_header_level breadcrumb lines current_index =
     (if breadcrumb = [] then 1
      else if has_indented_content
                (map (\<lambda>j. lines ! j)
                   [current_index + 1 ..< min (current_index + 10) (length lines)])
           then min (length breadcrumb + 1) 3
           else 2)"

definition convert_to_proper_header :: "string \<Rightarrow> nat \<Rightarrow> pattern_type \<Rightarrow> string" where
  "convert_to_proper_header text level pattern_type =
     (let header_prefix = replicate level (CHR ''#'')
      in if pattern_type = Date then header_prefix @ '' '' @ text
         else if pattern_type = Colon then header_prefix @ '' '' @ rstrip_colon text
         else if pattern_type = Numbered then header_prefix @ '' '' @ text
         else header_prefix @ '' '' @ text)"

section \<open>The document rewriter\<close>

text \<open>
  The entries of the list \<open>out\<close> are kept in the form in which the loop produces them:
  a line passed through, the header line of a heading together with its resolved level,
  or the arguments of the call of \<open>build_header_block\<close>. \<open>out_text\<close> is the string that
  the source appends for the entry.
\<close>

datatype out_entry =
    OutLine string
  | OutHeader nat string
  | OutBlock string string "string list" "string list"

fun out_text :: "out_entry \<Rightarrow> string" where
  "out_text (OutLine line) = line"
| "out_text (OutHeader level proper_header) = proper_header"
| "out_text (OutBlock doc_title rel_path breadcrumb aliases) =
     build_header_block doc_title rel_path breadcrumb aliases"

record pstate =
  out :: "out_entry list"
  breadcrumb :: "string list"
  doc_title :: string

text \<open>
  \<open>while len(breadcrumb) >= level: breadcrumb.pop()\<close>. Popping from the empty list raises
  IndexError, which is the result \<open>None\<close>.
\<close>

function pop_while :: "nat \<Rightarrow> string list \<Rightarrow> string list option" where
  "pop_while level bc =
     (if level \<le> length bc
      then (if bc = [] then None else pop_while level (butlast bc))
      else Some bc)"
  by pat_completeness auto
termination
  by (relation "measure (\<lambda>(level, bc). length bc)") auto

declare pop_while.simps [simp del]

text \<open>Lines 190 to 195 of \<open>process_markdown\<close>: the level of a classified line.\<close>

definition header_level ::
  "pattern_type \<Rightarrow> string \<Rightarrow> match \<Rightarrow> string list \<Rightarrow> string list \<Rightarrow> nat \<Rightarrow> nat" where
  "header_level pattern_type heading_text m bc lines i =
     (if pattern_type = Markdown then length (group m 1)
      else if pattern_type = Bold then determine_bold_header_level bc lines i
      else determine_header_level_by_context bc pattern_type heading_text)"

text \<open>Lines 197 to 205: the update of the document title and of the breadcrumb.\<close>

definition maintain_breadcrumb :: "nat \<Rightarrow> string \<Rightarrow> pstate \<Rightarrow> pstate option" where
  "maintain_breadcrumb level heading_text st =
     (if level = 1 then
        (let doc_title' = (if heading_text \<noteq> [] then heading_text else doc_title st)
         in Some (st\<lparr>doc_title := doc_title',
                      breadcrumb := [if heading_text \<noteq> [] then heading_text else doc_title']\<rparr>))
      else
        (case pop_while level (breadcrumb st) of
           None \<Rightarrow> None
         | Some bc \<Rightarrow> Some (st\<lparr>breadcrumb := bc @ [heading_text]\<rparr>)))"

text \<open>Lines 217 to 222: the next non-empty stripped line after the heading, or the empty string.\<close>

fun next_nonempty :: "string list \<Rightarrow> string" where
  "next_nonempty [] = []"
| "next_nonempty (l # ls) = (if strip l \<noteq> [] then strip l else next_nonempty ls)"

text \<open>One iteration of the \<open>while\<close> loop, for the index \<open>i < len(lines)\<close>.\<close>

definition loop_body :: "string list \<Rightarrow> string \<Rightarrow> nat \<Rightarrow> pstate \<Rightarrow> pstate option" where
  "loop_body lines rel_path i st =
     (let line = lines ! i
      in case check_header_patterns line of
           Some (pattern_type, heading_text, m) \<Rightarrow>
             (let level = header_level pattern_type heading_text m (breadcrumb st) lines i
              in case maintain_breadcrumb level heading_text st of
                   None \<Rightarrow> None
                 | Some st1 \<Rightarrow>
                     (let proper_header =
                            (if pattern_type = Markdown then line
                             else convert_to_proper_header heading_text level pattern_type);
                          already_injected =
                            prefix ''[DocTitle:'' (next_nonempty (drop (i + 1) lines));
                          aliases = guess_aliases_from_heading heading_text
                      in Some (st1\<lparr>out := out st1 @ [OutHeader level proper_header]
                                 @ (if already_injected then []
                                    else [OutBlock (doc_title st1) rel_path (breadcrumb st1) aliases])\<rparr>)))
         | None \<Rightarrow> Some (st\<lparr>out := out st @ [OutLine line]\<rparr>))"

function process_loop :: "string list \<Rightarrow> string \<Rightarrow> nat \<Rightarrow> pstate \<Rightarrow> pstate option" where
  "process_loop lines rel_path i st =
     (if i < length lines
      then (case loop_body lines rel_path i st of
              None \<Rightarrow> None
            | Some st' \<Rightarrow> process_loop lines rel_path (Suc i) st')
      else Some st)"
  by pat_completeness auto
termination
  by (relation "measure (\<lambda>(lines, rel_path, i, st). length lines - i)") auto

declare process_loop.simps [simp del]

text \<open>The \<open>return\<close> expression of \<open>process_markdown\<close>, on the strings of \<open>out\<close>.\<close>

definition final_text :: "string list \<Rightarrow> string" where
  "final_text outs = join [LF] outs @ (if outs = [] \<or> last outs \<noteq> [] then [LF] else [])"

definition initial_state :: "string \<Rightarrow> pstate" where
  "initial_state file_stem = \<lparr>out = [], breadcrumb = [], doc_title = file_stem\<rparr>"

definition process_markdown :: "string \<Rightarrow> string \<Rightarrow> string \<Rightarrow> string option" where
  "process_markdown md_text rel_path file_stem =
     (case process_loop (splitlines md_text) rel_path 0 (initial_state file_stem) of
        None \<Rightarrow> None
      | Some st \<Rightarrow> Some (final_text (map out_text (out st))))"

section \<open>Notions used by the properties\<close>

text \<open>
  The six compiled patterns and the three rejection tests are constants of the module.
  \<open>check_header_patterns_with\<close> is the body of \<open>check_header_patterns\<close> with these
  constants taken as a parameter, so that the order of its checks can be stated for any
  patterns, also for patterns that accept the same line; \<open>source_patterns\<close> are the
  constants of the source.
\<close>

record patterns =
  heading_re :: "string \<Rightarrow> match option"
  bold_re :: "string \<Rightarrow> match option"
  colon_re :: "string \<Rightarrow> match option"
  date_re :: "string \<Rightarrow> match option"
  numbered_re :: "string \<Rightarrow> match option"
  allcaps_re :: "string \<Rightarrow> match option"
  colon_keeps :: "string \<Rightarrow> bool"
  numbered_keeps :: "string \<Rightarrow> bool"
  allcaps_keeps :: "string \<Rightarrow> bool"

definition source_patterns :: patterns where
  "source_patterns =
     \<lparr>heading_re = HEADING_RE_match, bold_re = BOLD_HEADING_RE_match,
      colon_re = COLON_HEADING_RE_match, date_re = DATE_HEADING_RE_match,
      numbered_re = NUMBERED_HEADING_RE_match, allcaps_re = ALLCAPS_HEADING_RE_match,
      colon_keeps = (\<lambda>text. 5 \<le> length text \<and> \<not> prefix ''http'' (lower text)),
      numbered_keeps = (\<lambda>text. 5 \<le> length text),
      allcaps_keeps = (\<lambda>text. \<not> list_ex (\<lambda>word. contains word text) common_non_headers
                              \<and> length (split text) \<le> 6)\<rparr>"

definition check_header_patterns_with ::
  "patterns \<Rightarrow> string \<Rightarrow> (pattern_type \<times> string \<times> match) option" where
  "check_header_patterns_with p line =
     (case heading_re p line of
        Some m \<Rightarrow> Some (Markdown, strip (group m 2), m)
      | None \<Rightarrow>
     (case bold_re p line of
        Some m \<Rightarrow> Some (Bold, strip (group m 1), m)
      | None \<Rightarrow>
     (case (case colon_re p line of
              Some m \<Rightarrow>
                (let text = strip (group m 1)
                 in if colon_keeps p text then Some (Colon, text, m) else None)
            | None \<Rightarrow> None) of
        Some r \<Rightarrow> Some r
      | None \<Rightarrow>
     (case date_re p line of
        Some m \<Rightarrow> Some (Date, strip (group m 1), m)
      | None \<Rightarrow>
     (case (case numbered_re p line of
              Some m \<Rightarrow>
                (let text = strip (group m 2)
                 in if numbered_keeps p text
                    then Some (Numbered, group m 1 @ ''. '' @ text, m) else None)
            | None \<Rightarrow> None) of
        Some r \<Rightarrow> Some r
      | None \<Rightarrow>
     (case allcaps_re p line of
        Some m \<Rightarrow>
          (let text = strip (group m 1)
           in if allcaps_keeps p text then Some (Allcaps, text, m) else None)
      | None \<Rightarrow> None))))))"

text \<open>
  The classifier as the specification words it, for any patterns: the six kinds in their
  priority order; a kind accepts a line when its pattern matches the line and, for the
  colon, numbered and all-caps kinds, the rejection test keeps the extracted text; the
  classification is the first kind of the order that accepts the line.
\<close>

definition spec_priority_order :: "pattern_type list" where
  "spec_priority_order = [Markdown, Bold, Colon, Date, Numbered, Allcaps]"

fun spec_accepts :: "patterns \<Rightarrow> pattern_type \<Rightarrow> string \<Rightarrow> bool" where
  "spec_accepts p Markdown line = (heading_re p line \<noteq> None)"
| "spec_accepts p Bold line = (bold_re p line \<noteq> None)"
| "spec_accepts p Colon line =
     (case colon_re p line of None \<Rightarrow> False | Some m \<Rightarrow> colon_keeps p (strip (group m 1)))"
| "spec_accepts p Date line = (date_re p line \<noteq> None)"
| "spec_accepts p Numbered line =
     (case numbered_re p line of None \<Rightarrow> False | Some m \<Rightarrow> numbered_keeps p (strip (group m 2)))"
| "spec_accepts p Allcaps line =
     (case allcaps_re p line of None \<Rightarrow> False | Some m \<Rightarrow> allcaps_keeps p (strip (group m 1)))"

definition spec_classify :: "patterns \<Rightarrow> string \<Rightarrow> pattern_type option" where
  "spec_classify p line = find (\<lambda>kind. spec_accepts p kind line) spec_priority_order"

text \<open>
  Patterns that all match every line, with tests that keep every text: under them each
  line is ambiguous between the six kinds.
\<close>

definition ambiguous_patterns :: patterns where
  "ambiguous_patterns =
     \<lparr>heading_re = (\<lambda>line. Some [''#'', line]), bold_re = (\<lambda>line. Some [line]),
      colon_re = (\<lambda>line. Some [line]), date_re = (\<lambda>line. Some [line]),
      numbered_re = (\<lambda>line. Some [''1'', line]), allcaps_re = (\<lambda>line. Some [line]),
      colon_keeps = (\<lambda>text. True), numbered_keeps = (\<lambda>text. True),
      allcaps_keeps = (\<lambda>text. True)\<rparr>"

text \<open>The entries of \<open>out\<close> that stand for input lines: all but the metadata blocks.\<close>

fun is_block :: "out_entry \<Rightarrow> bool" where
  "is_block (OutBlock title path crumbs aliases) = True"
| "is_block (OutLine line) = False"
| "is_block (OutHeader level proper_header) = False"

definition line_entries :: "out_entry list \<Rightarrow> out_entry list" where
  "line_entries entries = filter (\<lambda>e. \<not> is_block e) entries"

text \<open>A string that ends in exactly one line feed.\<close>

definition ends_with_one_newline :: "string \<Rightarrow> bool" where
  "ends_with_one_newline s = (suffix [LF] s \<and> \<not> suffix [LF, LF] s)"

section \<open>Basic facts\<close>

subsection \<open>The loop never raises\<close>

lemma pop_while_take: "1 \<le> level \<Longrightarrow> pop_while level bc = Some (take (level - 1) bc)"
proof (induction level bc rule: pop_while.induct)
  case (1 level bc)
  show ?case
  proof (cases "level \<le> length bc")
    case True
    with "1.prems" have ne: "bc \<noteq> []" by auto
    have "pop_while level bc = pop_while level (butlast bc)"
      using True ne by (subst pop_while.simps) simp
    also have "\<dots> = Some (take (level - 1) (butlast bc))"
      using "1.IH" True ne "1.prems" by simp
    also have "take (level - 1) (butlast bc) = take (level - 1) bc"
      using True "1.prems" by (simp add: butlast_conv_take)
    finally show ?thesis .
  next
    case False
    then show ?thesis by (subst pop_while.simps) simp
  qed
qed

lemma check_header_patterns_cases:
  assumes "check_header_patterns line = Some (pt, text, m)"
  shows "(pt = Markdown \<and> HEADING_RE_match line = Some m \<and> text = strip (group m 2))
       \<or> (pt = Bold \<and> HEADING_RE_match line = None \<and> BOLD_HEADING_RE_match line = Some m
            \<and> text = strip (group m 1))
       \<or> (pt = Colon \<and> HEADING_RE_match line = None \<and> BOLD_HEADING_RE_match line = None
            \<and> COLON_HEADING_RE_match line = Some m \<and> text = strip (group m 1)
            \<and> 5 \<le> length text \<and> \<not> prefix ''http'' (lower text))
       \<or> (pt = Date \<and> HEADING_RE_match line = None \<and> BOLD_HEADING_RE_match line = None
            \<and> DATE_HEADING_RE_match line = Some m \<and> text = strip (group m 1))
       \<or> (pt = Numbered \<and> HEADING_RE_match line = None \<and> BOLD_HEADING_RE_match line = None
            \<and> DATE_HEADING_RE_match line = None
            \<and> NUMBERED_HEADING_RE_match line = Some m
            \<and> text = group m 1 @ ''. '' @ strip (group m 2) \<and> 5 \<le> length (strip (group m 2)))
       \<or> (pt = Allcaps \<and> HEADING_RE_match line = None \<and> BOLD_HEADING_RE_match line = None
            \<and> DATE_HEADING_RE_match line = None
            \<and> ALLCAPS_HEADING_RE_match line = Some m \<and> text = strip (group m 1)
            \<and> \<not> list_ex (\<lambda>word. contains word text) common_non_headers
            \<and> length (split text) \<le> 6)"
  using assms unfolding check_header_patterns_def Let_def
  by (auto split: option.splits if_splits)

lemma HEADING_RE_group1:
  "HEADING_RE_match line = Some m \<Longrightarrow> 1 \<le> length (group m 1) \<and> length (group m 1) \<le> 6"
  unfolding HEADING_RE_match_def Let_def group_def by (auto split: if_splits)

lemma header_level_pos:
  assumes "check_header_patterns line = Some (pt, text, m)"
  shows "1 \<le> header_level pt text m bc lines i"
  using check_header_patterns_cases[OF assms] HEADING_RE_group1[of line m]
  by (auto simp: header_level_def determine_bold_header_level_def
        determine_header_level_by_context_def)

lemma maintain_breadcrumb_Some:
  "1 \<le> level \<Longrightarrow> \<exists>st'. maintain_breadcrumb level text st = Some st'"
  by (simp add: maintain_breadcrumb_def pop_while_take Let_def)

lemma loop_body_Some: "\<exists>st'. loop_body lines rel_path i st = Some st'"
proof (cases "check_header_patterns (lines ! i)")
  case None
  then show ?thesis by (simp add: loop_body_def)
next
  case (Some r)
  obtain pt htext m where r: "r = (pt, htext, m)" by (cases r) auto
  from Some r have c: "check_header_patterns (lines ! i) = Some (pt, htext, m)" by simp
  from maintain_breadcrumb_Some[OF header_level_pos[OF c]]
  obtain st1 where "maintain_breadcrumb (header_level pt htext m (breadcrumb st) lines i) htext st = Some st1"
    by blast
  with c show ?thesis by (simp add: loop_body_def Let_def)
qed

lemma process_loop_Some: "\<exists>st'. process_loop lines rel_path i st = Some st'"
proof (induction lines rel_path i st rule: process_loop.induct)
  case (1 lines rel_path i st)
  show ?case
  proof (cases "i < length lines")
    case True
    obtain st1 where b: "loop_body lines rel_path i st = Some st1"
      using loop_body_Some by blast
    from "1.IH"[OF True b] obtain st' where "process_loop lines rel_path (Suc i) st1 = Some st'"
      by blast
    with True b show ?thesis by (subst process_loop.simps) simp
  next
    case False
    then show ?thesis by (subst process_loop.simps) simp
  qed
qed

subsection \<open>One iteration of the loop\<close>

lemma set_strip: "set (strip s) \<subseteq> set s"
proof -
  have "set (strip s) = set (dropWhile is_space (rev (dropWhile is_space s)))"
    by (simp add: strip_def)
  also have "\<dots> \<subseteq> set (rev (dropWhile is_space s))" by (rule set_dropWhileD[THEN subsetI])
  also have "\<dots> \<subseteq> set s" using set_dropWhileD[of _ is_space s] by auto
  finally show ?thesis .
qed

lemma rstrip_colon_id: "CHR '':'' \<notin> set s \<Longrightarrow> rstrip_colon s = s"
proof -
  assume a: "CHR '':'' \<notin> set s"
  then have "dropWhile (\<lambda>c. c = CHR '':'') (rev s) = rev s"
    by (cases "rev s") auto
  then show ?thesis by (simp add: rstrip_colon_def)
qed

lemma COLON_RE_group1:
  "COLON_HEADING_RE_match line = Some m \<Longrightarrow> CHR '':'' \<notin> set (group m 1)"
  unfolding COLON_HEADING_RE_match_def Let_def group_def
  by (auto split: if_splits dest: set_takeWhileD)

lemma loop_body_heading:
  assumes c: "check_header_patterns (lines ! i) = Some (pt, htext, m)"
  shows "loop_body lines rel_path i st =
     (let level = header_level pt htext m (breadcrumb st) lines i;
          dt = (if level = 1 \<and> htext \<noteq> [] then htext else doc_title st);
          bc = (if level = 1 then [if htext \<noteq> [] then htext else doc_title st]
                else take (level - 1) (breadcrumb st) @ [htext])
      in Some \<lparr>out = out st
                 @ [OutHeader level (if pt = Markdown then lines ! i
                                     else convert_to_proper_header htext level pt)]
                 @ (if prefix ''[DocTitle:'' (next_nonempty (drop (i + 1) lines)) then []
                    else [OutBlock dt rel_path bc (guess_aliases_from_heading htext)]),
               breadcrumb = bc, doc_title = dt\<rparr>)"
  using header_level_pos[OF c, of "breadcrumb st" lines i]
  by (simp add: loop_body_def c Let_def maintain_breadcrumb_def pop_while_take)

lemma loop_body_plain:
  "check_header_patterns (lines ! i) = None \<Longrightarrow>
   loop_body lines rel_path i st = Some (st\<lparr>out := out st @ [OutLine (lines ! i)]\<rparr>)"
  by (simp add: loop_body_def)

section \<open>Emitted header lines of converted headings\<close>

text \<open>
  Claim C9. For every line classified with a kind other than markdown, the header line
  built by \<open>convert_to_proper_header\<close>, which is the header entry that the loop appends to
  \<open>out\<close>, is \<open>level\<close> hash characters, one space and the extracted heading text
  unchanged. For the colon kind the heading text contains no colon, so stripping trailing
  colons from it changes nothing.
\<close>

theorem non_markdown_header_text_unchanged:
  assumes "check_header_patterns (lines ! i) = Some (pt, htext, m)"
    and "pt \<noteq> Markdown"
    and "level = header_level pt htext m (breadcrumb st) lines i"
  shows "convert_to_proper_header htext level pt = replicate level (CHR ''#'') @ '' '' @ htext
       \<and> (\<exists>st'. loop_body lines rel_path i st = Some st'
             \<and> out st' ! length (out st)
                 = OutHeader level (replicate level (CHR ''#'') @ '' '' @ htext))
       \<and> (pt = Colon \<longrightarrow> CHR '':'' \<notin> set htext \<and> rstrip_colon htext = htext)"
proof -
  have colon: "CHR '':'' \<notin> set htext" if "pt = Colon"
    using check_header_patterns_cases[OF assms(1)] that COLON_RE_group1[of "lines ! i" m]
      set_strip[of "group m 1"] by auto
  have conv: "convert_to_proper_header htext level pt = replicate level (CHR ''#'') @ '' '' @ htext"
    using colon by (auto simp: convert_to_proper_header_def Let_def rstrip_colon_id)
  have "\<exists>st'. loop_body lines rel_path i st = Some st'
             \<and> out st' ! length (out st)
                 = OutHeader level (replicate level (CHR ''#'') @ '' '' @ htext)"
    using assms(2,3) conv by (simp add: loop_body_heading[OF assms(1)] Let_def nth_append)
  with conv colon show ?thesis by (simp add: rstrip_colon_id)
qed

theorem non_markdown_header_text_unchanged_witness:
  "check_header_patterns ([''Meeting:''] ! 0) = Some (Colon, ''Meeting'', [''Meeting''])
   \<and> convert_to_proper_header ''Meeting'' 2 Colon = ''## Meeting''
   \<and> map_option out (loop_body [''Meeting:''] ''p'' 0 (initial_state ''f''))
       = Some [OutHeader 2 ''## Meeting'', OutBlock ''f'' ''p'' [''Meeting''] [''Meeting'']]
   \<and> rstrip_colon ''Meeting'' = ''Meeting''"
proof -
  have c: "check_header_patterns ([''Meeting:''] ! 0) = Some (Colon, ''Meeting'', [''Meeting''])"
    by code_simp
  have l: "(2::nat) = header_level Colon ''Meeting'' [''Meeting''] (breadcrumb (initial_state ''f'')) [''Meeting:''] 0"
    by code_simp
  have b: "map_option out (loop_body [''Meeting:''] ''p'' 0 (initial_state ''f''))
       = Some [OutHeader 2 ''## Meeting'', OutBlock ''f'' ''p'' [''Meeting''] [''Meeting'']]"
    by code_simp
  from non_markdown_header_text_unchanged[OF c _ l, of "''p''"] c b show ?thesis
    by (simp add: numeral_2_eq_2)
qed

subsection \<open>Invariants of the loop\<close>

lemma process_loop_invariant:
  assumes run: "process_loop lines rel_path i st = Some st'"
    and init: "I i st"
    and step: "\<And>j s s'. j < length lines \<Longrightarrow> I j s \<Longrightarrow> loop_body lines rel_path j s = Some s'
               \<Longrightarrow> I (Suc j) s'"
    and le: "i \<le> length lines"
  shows "I (length lines) st'"
  using run init le step
proof (induction lines rel_path i st rule: process_loop.induct)
  case (1 lines rel_path i st)
  note st = "1.prems"(4)
  show ?case
  proof (cases "i < length lines")
    case True
    obtain s1 where b: "loop_body lines rel_path i st = Some s1"
      using loop_body_Some by blast
    have r: "process_loop lines rel_path (Suc i) s1 = Some st'"
      using "1.prems"(1) True b by (subst (asm) process_loop.simps) simp
    have "I (Suc i) s1" using st[OF True "1.prems"(2) b] .
    from "1.IH"[OF True b r this _ st] True show ?thesis by simp
  next
    case False
    with "1.prems"(3) have e: "i = length lines" by simp
    from "1.prems"(1) False have "st' = st" by (subst (asm) process_loop.simps) simp
    with "1.prems"(2) e show ?thesis by simp
  qed
qed

section \<open>The entries of the input lines\<close>

lemma HEADING_RE_classified:
  "HEADING_RE_match line = Some m \<Longrightarrow>
   check_header_patterns line = Some (Markdown, strip (group m 2), m)"
  by (simp add: check_header_patterns_def)

lemma line_entries_append [simp]:
  "line_entries (xs @ ys) = line_entries xs @ line_entries ys"
  by (simp add: line_entries_def)

lemma loop_body_line_entries:
  assumes "loop_body lines rel_path j s = Some s'"
  shows "\<exists>e. line_entries (out s') = line_entries (out s) @ [e]
           \<and> (\<forall>m. HEADING_RE_match (lines ! j) = Some m \<longrightarrow>
                  e = OutHeader (length (group m 1)) (lines ! j))"
proof (cases "check_header_patterns (lines ! j)")
  case None
  then have "HEADING_RE_match (lines ! j) = None"
    by (auto simp: check_header_patterns_def split: option.splits)
  with None assms show ?thesis
    by (auto simp: loop_body_plain line_entries_def)
next
  case (Some r)
  obtain pt htext m' where r: "r = (pt, htext, m')" by (cases r) auto
  from Some r have c: "check_header_patterns (lines ! j) = Some (pt, htext, m')" by simp
  have md: "pt = Markdown \<and> m' = m" if "HEADING_RE_match (lines ! j) = Some m" for m
    using HEADING_RE_classified[OF that] c by simp
  from assms show ?thesis
    unfolding loop_body_heading[OF c] Let_def
    using md by (auto simp: line_entries_def header_level_def)
qed

lemma run_line_entries:
  assumes "process_loop lines rel_path 0 (initial_state file_stem) = Some st'"
    and "i < length lines"
    and "HEADING_RE_match (lines ! i) = Some m"
  shows "length (line_entries (out st')) = length lines
       \<and> line_entries (out st') ! i = OutHeader (length (group m 1)) (lines ! i)
       \<and> out_text (line_entries (out st') ! i) = lines ! i"
proof -
  let ?I = "\<lambda>j s. length (line_entries (out s)) = j
             \<and> (\<forall>k<j. \<forall>m. HEADING_RE_match (lines ! k) = Some m \<longrightarrow>
                    line_entries (out s) ! k = OutHeader (length (group m 1)) (lines ! k))"
  have init: "?I 0 (initial_state file_stem)"
    by (simp add: initial_state_def line_entries_def)
  have step: "?I (Suc j) s'"
    if "j < length lines" "?I j s" "loop_body lines rel_path j s = Some s'" for j s s'
  proof -
    from loop_body_line_entries[OF that(3)] obtain e where
      e: "line_entries (out s') = line_entries (out s) @ [e]"
      and h: "\<forall>m. HEADING_RE_match (lines ! j) = Some m \<longrightarrow>
                  e = OutHeader (length (group m 1)) (lines ! j)"
      by blast
    show ?thesis using that(2) e h by (auto simp: nth_append less_Suc_eq)
  qed
  have "?I (length lines) st'"
    by (rule process_loop_invariant[where I = ?I, OF assms(1) init step]) simp_all
  with assms(2,3) show ?thesis by auto
qed

subsection \<open>The state after a heading\<close>

lemma loop_body_heading_fields:
  assumes c: "check_header_patterns (lines ! j) = Some (pt, htext, m)"
    and b: "loop_body lines rel_path j s = Some s'"
    and l: "level = header_level pt htext m (breadcrumb s) lines j"
  shows "doc_title s' = (if level = 1 \<and> htext \<noteq> [] then htext else doc_title s)"
    and "breadcrumb s' = (if level = 1 then [if htext \<noteq> [] then htext else doc_title s]
                          else take (level - 1) (breadcrumb s) @ [htext])"
    and "out s' = out s
           @ [OutHeader level (if pt = Markdown then lines ! j
                               else convert_to_proper_header htext level pt)]
           @ (if prefix ''[DocTitle:'' (next_nonempty (drop (j + 1) lines)) then []
              else [OutBlock (doc_title s') rel_path (breadcrumb s')
                      (guess_aliases_from_heading htext)])"
proof -
  from b have e: "s' = \<lparr>out = out s
           @ [OutHeader level (if pt = Markdown then lines ! j
                               else convert_to_proper_header htext level pt)]
           @ (if prefix ''[DocTitle:'' (next_nonempty (drop (j + 1) lines)) then []
              else [OutBlock (if level = 1 \<and> htext \<noteq> [] then htext else doc_title s) rel_path
                      (if level = 1 then [if htext \<noteq> [] then htext else doc_title s]
                       else take (level - 1) (breadcrumb s) @ [htext])
                      (guess_aliases_from_heading htext)]),
        breadcrumb = (if level = 1 then [if htext \<noteq> [] then htext else doc_title s]
                          else take (level - 1) (breadcrumb s) @ [htext]),
        doc_title = (if level = 1 \<and> htext \<noteq> [] then htext else doc_title s)\<rparr>"
    unfolding loop_body_heading[OF c] Let_def l by simp
  have dt: "doc_title s' = (if level = 1 \<and> htext \<noteq> [] then htext else doc_title s)"
    by (subst e) simp
  have bc: "breadcrumb s' = (if level = 1 then [if htext \<noteq> [] then htext else doc_title s]
                          else take (level - 1) (breadcrumb s) @ [htext])"
    by (subst e) simp
  have ot: "out s' = out s
           @ [OutHeader level (if pt = Markdown then lines ! j
                               else convert_to_proper_header htext level pt)]
           @ (if prefix ''[DocTitle:'' (next_nonempty (drop (j + 1) lines)) then []
              else [OutBlock (if level = 1 \<and> htext \<noteq> [] then htext else doc_title s) rel_path
                      (if level = 1 then [if htext \<noteq> [] then htext else doc_title s]
                       else take (level - 1) (breadcrumb s) @ [htext])
                      (guess_aliases_from_heading htext)])"
    by (subst e) simp
  show "doc_title s' = (if level = 1 \<and> htext \<noteq> [] then htext else doc_title s)"
    by (rule dt)
  show "breadcrumb s' = (if level = 1 then [if htext \<noteq> [] then htext else doc_title s]
                          else take (level - 1) (breadcrumb s) @ [htext])"
    by (rule bc)
  show "out s' = out s
           @ [OutHeader level (if pt = Markdown then lines ! j
                               else convert_to_proper_header htext level pt)]
           @ (if prefix ''[DocTitle:'' (next_nonempty (drop (j + 1) lines)) then []
              else [OutBlock (doc_title s') rel_path (breadcrumb s')
                      (guess_aliases_from_heading htext)])"
    unfolding dt bc by (rule ot)
qed

section \<open>The document title\<close>

lemma loop_body_title_invariant:
  assumes b: "loop_body lines rel_path j s = Some s'"
    and inv: "(\<forall>h. OutHeader 1 h \<notin> set (out s)) \<longrightarrow>
              doc_title s = fs \<and> (\<forall>d p b a. OutBlock d p b a \<in> set (out s) \<longrightarrow> d = fs)"
  shows "(\<forall>h. OutHeader 1 h \<notin> set (out s')) \<longrightarrow>
              doc_title s' = fs \<and> (\<forall>d p b a. OutBlock d p b a \<in> set (out s') \<longrightarrow> d = fs)"
proof (cases "check_header_patterns (lines ! j)")
  case None
  with b have "s' = s\<lparr>out := out s @ [OutLine (lines ! j)]\<rparr>"
    by (simp add: loop_body_plain)
  with inv show ?thesis by simp
next
  case (Some r)
  obtain pt htext m where r: "r = (pt, htext, m)" by (cases r) auto
  from Some r have c: "check_header_patterns (lines ! j) = Some (pt, htext, m)" by simp
  define level where "level = header_level pt htext m (breadcrumb s) lines j"
  note f = loop_body_heading_fields[OF c b level_def]
  show ?thesis
  proof (intro impI)
    assume n: "\<forall>h. OutHeader 1 h \<notin> set (out s')"
    have "OutHeader level (if pt = Markdown then lines ! j
                               else convert_to_proper_header htext level pt) \<in> set (out s')"
      by (subst f(3)) simp
    with n have l: "level \<noteq> 1" by blast
    have sub: "set (out s) \<subseteq> set (out s')" by (subst f(3)) auto
    with n have "\<forall>h. OutHeader 1 h \<notin> set (out s)" by blast
    with inv have t: "doc_title s = fs"
      and bl: "\<forall>d p b a. OutBlock d p b a \<in> set (out s) \<longrightarrow> d = fs" by blast+
    from f(1) l t have t': "doc_title s' = fs" by simp
    have "d = fs" if "OutBlock d p b a \<in> set (out s')" for d p b a
    proof -
      from that have "OutBlock d p b a \<in> set (out s) \<or> d = doc_title s'"
        by (subst (asm) f(3)) (auto split: if_splits)
      with bl t' show ?thesis by blast
    qed
    with t' show "doc_title s' = fs \<and> (\<forall>d p b a. OutBlock d p b a \<in> set (out s') \<longrightarrow> d = fs)"
      by blast
  qed
qed


lemma no_level1_keeps_fallback:
  assumes a: "process_loop lines rel_path 0 (initial_state file_stem) = Some st'"
    and n: "\<forall>h. OutHeader 1 h \<notin> set (out st')"
  shows "doc_title st' = file_stem
      \<and> (\<forall>d p b a. OutBlock d p b a \<in> set (out st') \<longrightarrow> d = file_stem)"
proof -
  let ?I = "\<lambda>(j::nat) s. (\<forall>h. OutHeader 1 h \<notin> set (out s)) \<longrightarrow>
              doc_title s = file_stem
              \<and> (\<forall>d p b a. OutBlock d p b a \<in> set (out s) \<longrightarrow> d = file_stem)"
  have init: "?I 0 (initial_state file_stem)" by (simp add: initial_state_def)
  have "?I (length lines) st'"
  proof (rule process_loop_invariant[where I = ?I, OF a init])
    fix j s s'
    assume "j < length lines" and i: "?I j s" and b: "loop_body lines rel_path j s = Some s'"
    from loop_body_title_invariant[OF b i] show "?I (Suc j) s'" .
  qed simp
  with n show ?thesis by blast
qed

text \<open>
  Claim C6, as the code has it. The document title starts as the fallback title and is
  replaced by the text of every heading that is resolved to level 1 and has a non-empty
  text, whether or not an earlier level-1 heading has set it already; every other line
  leaves it unchanged. When no heading of the document is resolved to level 1, the title
  is still the fallback at the end and every metadata block in \<open>out\<close> carries the
  fallback title.
\<close>

theorem doc_title_replaced_by_each_level1_heading:
  "(check_header_patterns (lines1 ! i1) = Some (pt, htext, m) \<longrightarrow>
      (\<exists>s'. loop_body lines1 rel_path1 i1 s1 = Some s'
         \<and> doc_title s' =
             (if header_level pt htext m (breadcrumb s1) lines1 i1 = 1 \<and> htext \<noteq> []
              then htext else doc_title s1)))
   \<and> (check_header_patterns (lines2 ! i2) = None \<longrightarrow>
      (\<exists>s'. loop_body lines2 rel_path2 i2 s2 = Some s' \<and> doc_title s' = doc_title s2))
   \<and> (process_loop lines rel_path 0 (initial_state file_stem) = Some st'
        \<and> (\<forall>h. OutHeader 1 h \<notin> set (out st')) \<longrightarrow>
      doc_title st' = file_stem
      \<and> (\<forall>d p b a. OutBlock d p b a \<in> set (out st') \<longrightarrow> d = file_stem))"
proof -
  have p1: "\<exists>s'. loop_body lines1 rel_path1 i1 s1 = Some s'
         \<and> doc_title s' =
             (if header_level pt htext m (breadcrumb s1) lines1 i1 = 1 \<and> htext \<noteq> []
              then htext else doc_title s1)"
    if c: "check_header_patterns (lines1 ! i1) = Some (pt, htext, m)"
    by (simp add: loop_body_heading[OF c] Let_def)
  have p2: "\<exists>s'. loop_body lines2 rel_path2 i2 s2 = Some s' \<and> doc_title s' = doc_title s2"
    if "check_header_patterns (lines2 ! i2) = None"
    using that by (simp add: loop_body_plain)
  from p1 p2 no_level1_keeps_fallback[of lines rel_path file_stem st'] show ?thesis
    by blast
qed

text \<open>
  The claim as stated, that a later level-1 heading does not change the title, fails on
  the document of the two lines \<open># A\<close> and \<open># B\<close>: the second block carries the title
  \<open>B\<close>.
\<close>

theorem doc_title_first_level1_only_counterexample:
  "process_loop [''# A'', ''# B''] ''p'' 0 (initial_state ''f'')
     = Some \<lparr>out = [OutHeader 1 ''# A'', OutBlock ''A'' ''p'' [''A''] [],
                     OutHeader 1 ''# B'', OutBlock ''B'' ''p'' [''B''] []],
             breadcrumb = [''B''], doc_title = ''B''\<rparr>
   \<and> ''B'' \<noteq> ''A''"
  by code_simp

theorem doc_title_replaced_by_each_level1_heading_witness:
  "check_header_patterns ([''# A'', ''# B''] ! 1) = Some (Markdown, ''B'', [''#'', ''B''])
   \<and> map_option doc_title
        (loop_body [''# A'', ''# B''] ''p'' 1
           \<lparr>out = [OutHeader 1 ''# A'', OutBlock ''A'' ''p'' [''A''] []],
            breadcrumb = [''A''], doc_title = ''A''\<rparr>) = Some ''B''
   \<and> check_header_patterns ([''plain text''] ! 0) = None
   \<and> map_option doc_title (loop_body [''plain text''] ''p'' 0 (initial_state ''f'')) = Some ''f''
   \<and> process_loop [''Meeting:'', ''## Next''] ''p'' 0 (initial_state ''f'')
       = Some \<lparr>out = [OutHeader 2 ''## Meeting'', OutBlock ''f'' ''p'' [''Meeting''] [''Meeting''],
                       OutHeader 2 ''## Next'', OutBlock ''f'' ''p'' [''Meeting'', ''Next''] [''Next'']],
               breadcrumb = [''Meeting'', ''Next''], doc_title = ''f''\<rparr>"
proof -
  let ?s1 = "\<lparr>out = [OutHeader 1 ''# A'', OutBlock ''A'' ''p'' [''A''] []],
            breadcrumb = [''A''], doc_title = ''A''\<rparr>"
  let ?st = "\<lparr>out = [OutHeader 2 ''## Meeting'', OutBlock ''f'' ''p'' [''Meeting''] [''Meeting''],
                       OutHeader 2 ''## Next'', OutBlock ''f'' ''p'' [''Meeting'', ''Next''] [''Next'']],
               breadcrumb = [''Meeting'', ''Next''], doc_title = ''f''\<rparr>"
  have c1: "check_header_patterns ([''# A'', ''# B''] ! 1) = Some (Markdown, ''B'', [''#'', ''B''])"
    by code_simp
  have l1: "header_level Markdown ''B'' [''#'', ''B''] (breadcrumb ?s1) [''# A'', ''# B''] 1 = 1"
    by code_simp
  have c2: "check_header_patterns ([''plain text''] ! 0) = None"
    by code_simp
  have r: "process_loop [''Meeting:'', ''## Next''] ''p'' 0 (initial_state ''f'') = Some ?st"
    by code_simp
  have n: "\<forall>h. OutHeader 1 h \<notin> set (out ?st)" by simp
  note T = doc_title_replaced_by_each_level1_heading
    [where ?lines1.0 = "[''# A'', ''# B'']" and ?i1.0 = 1 and pt = Markdown and htext = "''B''"
       and m = "[''#'', ''B'']" and ?rel_path1.0 = "''p''" and ?s1.0 = ?s1
       and ?lines2.0 = "[''plain text'']" and ?i2.0 = 0 and ?rel_path2.0 = "''p''"
       and ?s2.0 = "initial_state ''f''"
       and lines = "[''Meeting:'', ''## Next'']" and rel_path = "''p''" and file_stem = "''f''"
       and st' = ?st]
  from T c1 have "\<exists>s'. loop_body [''# A'', ''# B''] ''p'' 1 ?s1 = Some s'
         \<and> doc_title s' =
             (if header_level Markdown ''B'' [''#'', ''B''] (breadcrumb ?s1) [''# A'', ''# B''] 1 = 1
                 \<and> ''B'' \<noteq> []
              then ''B'' else doc_title ?s1)"
    by blast
  then have w1: "map_option doc_title (loop_body [''# A'', ''# B''] ''p'' 1 ?s1) = Some ''B''"
    unfolding l1 by auto
  from T c2 have "\<exists>s'. loop_body [''plain text''] ''p'' 0 (initial_state ''f'') = Some s'
              \<and> doc_title s' = doc_title (initial_state ''f'')"
    by blast
  then have w2: "map_option doc_title (loop_body [''plain text''] ''p'' 0 (initial_state ''f''))
                 = Some ''f''"
    by (auto simp: initial_state_def)
  from T r n have "doc_title ?st = ''f''
      \<and> (\<forall>d p b a. OutBlock d p b a \<in> set (out ?st) \<longrightarrow> d = ''f'')"
    by blast
  from c1 w1 c2 w2 r show ?thesis by blast
qed

section \<open>Depth of the breadcrumb\<close>

text \<open>
  Claim C1, as the code has it. After the iteration for a line classified as a heading
  with resolved level \<open>L\<close>, the last element of the breadcrumb is the heading text, or
  the document title when the level is 1 and the heading text is empty; the breadcrumb has
  at most \<open>L\<close> elements, and exactly \<open>L\<close> whenever it had at least \<open>L - 1\<close> elements
  before the heading.
\<close>

theorem breadcrumb_after_heading:
  assumes c: "check_header_patterns (lines ! i) = Some (pt, htext, m)"
    and l: "level = header_level pt htext m (breadcrumb st) lines i"
  shows "\<exists>st'. loop_body lines rel_path i st = Some st'
           \<and> last (breadcrumb st') = (if level = 1 \<and> htext = [] then doc_title st else htext)
           \<and> length (breadcrumb st') \<le> level
           \<and> (level - 1 \<le> length (breadcrumb st) \<longrightarrow> length (breadcrumb st') = level)"
proof -
  obtain st' where b: "loop_body lines rel_path i st = Some st'"
    using loop_body_Some by blast
  have pos: "1 \<le> level" unfolding l by (rule header_level_pos[OF c])
  note bc = loop_body_heading_fields(2)[OF c b l]
  have "last (breadcrumb st') = (if level = 1 \<and> htext = [] then doc_title st else htext)"
    by (subst bc) simp
  moreover have "length (breadcrumb st') \<le> level"
    using pos by (subst bc) (auto simp: min_def)
  moreover have "length (breadcrumb st') = level" if "level - 1 \<le> length (breadcrumb st)"
    using pos that by (subst bc) (auto simp: min_def)
  ultimately show ?thesis using b by blast
qed

text \<open>
  The claim as stated fails in two ways: a level-1 heading with empty text leaves the
  document title, not the empty text, in the breadcrumb; and a heading of level 3 on the
  empty breadcrumb leaves one element, since the loop only pops.
\<close>

theorem breadcrumb_exactly_level_counterexample:
  "check_header_patterns ([''# ''] ! 0) = Some (Markdown, [], [''#'', []])
   \<and> header_level Markdown [] [''#'', []] [] [''# ''] 0 = 1
   \<and> map_option breadcrumb (loop_body [''# ''] ''p'' 0 (initial_state ''notes'')) = Some [''notes'']
   \<and> ''notes'' \<noteq> []
   \<and> check_header_patterns ([''### Foo''] ! 0) = Some (Markdown, ''Foo'', [''###'', ''Foo''])
   \<and> header_level Markdown ''Foo'' [''###'', ''Foo''] [] [''### Foo''] 0 = 3
   \<and> map_option breadcrumb (loop_body [''### Foo''] ''p'' 0 (initial_state ''notes'')) = Some [''Foo'']
   \<and> length [''Foo''] \<noteq> 3"
  by code_simp

theorem breadcrumb_after_heading_witness:
  "check_header_patterns ([''# A'', ''## B'', ''Tasks:''] ! 2) = Some (Colon, ''Tasks'', [''Tasks''])
   \<and> map_option breadcrumb
        (loop_body [''# A'', ''## B'', ''Tasks:''] ''p'' 2
           \<lparr>out = [], breadcrumb = [''A'', ''B''], doc_title = ''A''\<rparr>)
       = Some [''A'', ''B'', ''Tasks'']"
proof -
  let ?st = "\<lparr>out = [], breadcrumb = [''A'', ''B''], doc_title = ''A''\<rparr>"
  have c: "check_header_patterns ([''# A'', ''## B'', ''Tasks:''] ! 2)
             = Some (Colon, ''Tasks'', [''Tasks''])"
    by code_simp
  have l: "(3::nat) = header_level Colon ''Tasks'' [''Tasks''] (breadcrumb ?st)
                         [''# A'', ''## B'', ''Tasks:''] 2"
    by code_simp
  have v: "map_option breadcrumb (loop_body [''# A'', ''## B'', ''Tasks:''] ''p'' 2 ?st)
       = Some [''A'', ''B'', ''Tasks'']"
    by code_simp
  from breadcrumb_after_heading[OF c l, of "''p''"]
  obtain st' where "loop_body [''# A'', ''## B'', ''Tasks:''] ''p'' 2 ?st = Some st'"
    and "last (breadcrumb st') = ''Tasks''" and "length (breadcrumb st') = 3"
    by auto
  with c v show ?thesis by simp
qed

section \<open>Look-ahead of bold headings\<close>

lemma strip_prefix_of_dropWhile: "prefix (strip s) (dropWhile is_space s)"
proof -
  let ?t = "dropWhile is_space s"
  have "rev ?t = takeWhile is_space (rev ?t) @ dropWhile is_space (rev ?t)" by simp
  then have "?t = rev (dropWhile is_space (rev ?t)) @ rev (takeWhile is_space (rev ?t))"
    by (metis rev_append rev_rev_ident)
  then show ?thesis unfolding strip_def by (metis prefixI)
qed

lemma strip_hd_not_space: "strip s \<noteq> [] \<Longrightarrow> \<not> is_space (hd (strip s))"
proof -
  assume ne: "strip s \<noteq> []"
  from strip_prefix_of_dropWhile[of s] obtain r where r: "dropWhile is_space s = strip s @ r"
    by (auto simp: prefix_def)
  with ne have "hd (strip s) = hd (dropWhile is_space s)" by simp
  moreover from r ne have "dropWhile is_space s \<noteq> []" by auto
  ultimately show ?thesis using hd_dropWhile[of is_space s] by simp
qed

text \<open>
  Claim C4 does not hold of the code. The look-ahead strips each line before it tests it,
  so no tested line starts with two spaces and the indentation test never succeeds: with
  the breadcrumb \<open>A > B\<close>, a bold heading followed by an indented line that is not a list
  item is resolved to level 2, where the claim gives \<open>min (2 + 1) 3 = 3\<close>.
\<close>

theorem bold_lookahead_misses_indentation:
  "\<not> prefix ''  '' (strip l)
   \<and> determine_bold_header_level [''A'', ''B''] [''**C**'', ''    indented text''] 0 = 2
   \<and> min (length [''A'', ''B''] + 1) 3 = (3::nat)
   \<and> map_option out (process_loop [''# A'', ''## B'', ''**C**'', ''    indented text''] ''p'' 2
        \<lparr>out = [], breadcrumb = [''A'', ''B''], doc_title = ''A''\<rparr>)
       = Some [OutHeader 2 ''## C'', OutBlock ''A'' ''p'' [''A'', ''C''] [],
               OutLine ''    indented text'']"
proof -
  have "\<not> prefix ''  '' (strip l)"
  proof
    assume p: "prefix ''  '' (strip l)"
    then have "strip l \<noteq> []" by auto
    moreover from p have "hd (strip l) = CHR '' ''" by (auto simp: prefix_def)
    ultimately show False using strip_hd_not_space[of l] by (simp add: is_space_def)
  qed
  moreover have "determine_bold_header_level [''A'', ''B''] [''**C**'', ''    indented text''] 0 = 2"
    by code_simp
  moreover have "map_option out (process_loop [''# A'', ''## B'', ''**C**'', ''    indented text''] ''p'' 2
        \<lparr>out = [], breadcrumb = [''A'', ''B''], doc_title = ''A''\<rparr>)
       = Some [OutHeader 2 ''## C'', OutBlock ''A'' ''p'' [''A'', ''C''] [],
               OutLine ''    indented text'']"
    by code_simp
  ultimately show ?thesis by simp
qed

section \<open>Running the rewriter on its own output\<close>

text \<open>
  Claim C2 does not hold of the code. The output for the document \<open># T\<close> ends in the
  metadata block and three line feeds; the rewriter maps that output to the same text with
  two line feeds at the end. Likewise the empty document gives a single line feed, which
  the rewriter maps to the empty string.
\<close>

theorem rewrite_twice_differs:
  "process_markdown ''# T'' ''p'' ''f''
     = Some (''# T'' @ [LF] @ ''[DocTitle: T]'' @ [LF] @ ''[Path: p]'' @ [LF]
             @ ''[Section: T]'' @ [LF, LF, LF])
   \<and> process_markdown (''# T'' @ [LF] @ ''[DocTitle: T]'' @ [LF] @ ''[Path: p]'' @ [LF]
             @ ''[Section: T]'' @ [LF, LF, LF]) ''p'' ''f''
     = Some (''# T'' @ [LF] @ ''[DocTitle: T]'' @ [LF] @ ''[Path: p]'' @ [LF]
             @ ''[Section: T]'' @ [LF, LF])
   \<and> process_markdown [] ''p'' ''f'' = Some [LF]
   \<and> process_markdown [LF] ''p'' ''f'' = Some []"
  by code_simp

section \<open>The patterns exclude one another\<close>

lemma takeWhile_nonempty: "takeWhile P xs \<noteq> [] \<Longrightarrow> xs \<noteq> [] \<and> P (hd xs) \<and> hd (takeWhile P xs) = hd xs"
  by (cases xs) (auto split: if_splits)

lemma HEADING_RE_first:
  assumes "HEADING_RE_match line = Some m"
  shows "line \<noteq> [] \<and> hd line = CHR ''#''"
proof -
  have "1 \<le> length (takeWhile (\<lambda>c. c = CHR ''#'') line)"
    using assms unfolding HEADING_RE_match_def Let_def by (simp split: if_splits)
  then have "takeWhile (\<lambda>c. c = CHR ''#'') line \<noteq> []" by auto
  from takeWhile_nonempty[OF this] show ?thesis by simp
qed

lemma BOLD_RE_first:
  assumes "BOLD_HEADING_RE_match line = Some m"
  shows "line \<noteq> [] \<and> hd line = CHR ''*''"
proof -
  have "take 2 line = ''**''"
    using assms unfolding BOLD_HEADING_RE_match_def Let_def by (simp split: if_splits)
  then show ?thesis by (cases line) auto
qed

lemma COLON_RE_first:
  assumes a: "COLON_HEADING_RE_match line = Some m"
  shows "line \<noteq> [] \<and> is_upper (hd line) \<and> CHR '':'' \<in> set line"
proof -
  from a have r: "dropWhile (\<lambda>c. c \<noteq> CHR '':'') line \<noteq> []"
    unfolding COLON_HEADING_RE_match_def Let_def by (simp split: if_splits)
  from a have g: "takeWhile (\<lambda>c. c \<noteq> CHR '':'') line \<noteq> []"
    unfolding COLON_HEADING_RE_match_def Let_def by (simp split: if_splits)
  from a have u: "is_upper (hd (takeWhile (\<lambda>c. c \<noteq> CHR '':'') line))"
    unfolding COLON_HEADING_RE_match_def Let_def by (simp split: if_splits)
  from takeWhile_nonempty[OF g] u have "line \<noteq> []" "is_upper (hd line)" by simp_all
  moreover from r have "\<not> (\<forall>c \<in> set line. c \<noteq> CHR '':'')"
    by simp
  ultimately show ?thesis by blast
qed

lemma take2_eq: "take 2 xs = [a, b] \<Longrightarrow> \<exists>r. xs = a # b # r"
  by (cases xs; cases "tl xs") (auto simp: numeral_2_eq_2)

lemma two_digits_Some: "two_digits s = Some r \<Longrightarrow> \<exists>a b. s = a # b # r \<and> is_digit a \<and> is_digit b"
  unfolding two_digits_def by (auto split: list.splits if_splits)

lemma DATE_RE_first:
  "DATE_HEADING_RE_match line = Some m \<Longrightarrow>
   \<exists>a b c d r. line = a # b # c # d # r \<and> is_digit a \<and> is_digit b \<and> is_digit c \<and> is_digit d"
proof -
  assume a: "DATE_HEADING_RE_match line = Some m"
  define g1 where "g1 = (if line \<noteq> [] \<and> last line = LF then butlast line else line)"
  from a have t: "take 2 g1 = ''20''"
    and b: "Option.bind (Option.bind (Option.bind (Option.bind (two_digits (drop 2 g1))
                 spaces1) two_digits) spaces1) two_digits = Some []"
    unfolding DATE_HEADING_RE_match_def Let_def g1_def by (auto split: if_splits)
  from b obtain r where "two_digits (drop 2 g1) = Some r"
    by (auto simp: bind_eq_Some_conv)
  then obtain c d where cd: "drop 2 g1 = c # d # r" "is_digit c" "is_digit d"
    using two_digits_Some by blast
  from take2_eq[OF t] obtain r' where g: "g1 = CHR ''2'' # CHR ''0'' # r'" by blast
  with cd have g': "g1 = CHR ''2'' # CHR ''0'' # c # d # r" by simp
  obtain r'' where "line = g1 @ r''"
  proof (cases "line \<noteq> [] \<and> last line = LF")
    case True
    then have ne: "line \<noteq> []" by simp
    have e: "line = butlast line @ [last line]"
      by (rule append_butlast_last_id[OF ne, symmetric])
    from True have "g1 = butlast line" by (simp add: g1_def)
    with e have "line = g1 @ [last line]" by simp
    then show ?thesis by (rule that)
  next
    case False
    with that[of "[]"] show ?thesis by (simp add: g1_def)
  qed
  with g' have "line = CHR ''2'' # CHR ''0'' # c # d # (r @ r'')" by simp
  moreover have "is_digit (CHR ''2'')" "is_digit (CHR ''0'')" by (simp_all add: is_digit_def)
  ultimately show ?thesis using cd by blast
qed

lemma NUMBERED_RE_first:
  "NUMBERED_HEADING_RE_match line = Some m \<Longrightarrow>
   line \<noteq> [] \<and> is_digit (hd line) \<and> length (takeWhile is_digit line) \<le> 2
   \<and> m = [takeWhile is_digit line, dropWhile is_space (tl (dropWhile is_digit line))]"
proof -
  assume a: "NUMBERED_HEADING_RE_match line = Some m"
  then have g: "1 \<le> length (takeWhile is_digit line)"
    and l: "length (takeWhile is_digit line) \<le> 2"
    and m: "m = [takeWhile is_digit line, dropWhile is_space (tl (dropWhile is_digit line))]"
    unfolding NUMBERED_HEADING_RE_match_def Let_def by (simp_all split: if_splits)
  from g have "takeWhile is_digit line \<noteq> []" by auto
  from takeWhile_nonempty[OF this] l m show ?thesis by simp
qed

lemma ALLCAPS_RE_first:
  "ALLCAPS_HEADING_RE_match line = Some m \<Longrightarrow>
   line \<noteq> [] \<and> is_upper (hd line) \<and> (\<forall>c \<in> set line. is_upper c \<or> is_space c) \<and> m = [line]"
proof -
  assume a: "ALLCAPS_HEADING_RE_match line = Some m"
  then have ne: "line \<noteq> []" and u: "is_upper (hd line)"
    and al: "list_all (\<lambda>c. is_upper c \<or> is_space c) (tl line)" and m: "m = [line]"
    unfolding ALLCAPS_HEADING_RE_match_def by (simp_all split: if_splits)
  from ne have "set line = insert (hd line) (set (tl line))" by (cases line) simp_all
  with u al have "\<forall>c \<in> set line. is_upper c \<or> is_space c" by (auto simp: list_all_iff)
  with ne u m show ?thesis by simp
qed

lemma upper_facts:
  "is_upper c \<Longrightarrow> c \<noteq> CHR ''#'' \<and> c \<noteq> CHR ''*'' \<and> c \<noteq> CHR '':'' \<and> \<not> is_digit c \<and> \<not> is_space c"
  by (auto simp: is_upper_def is_digit_def is_space_def)

lemma digit_facts:
  "is_digit c \<Longrightarrow> c \<noteq> CHR ''#'' \<and> c \<noteq> CHR ''*'' \<and> \<not> is_upper c"
  by (auto simp: is_upper_def is_digit_def)

lemma not_Some_None: "(\<And>m. f \<noteq> Some m) \<Longrightarrow> f = None"
  by (cases f) auto

lemma ALLCAPS_excludes:
  assumes a: "ALLCAPS_HEADING_RE_match line = Some m"
  shows "HEADING_RE_match line = None" "BOLD_HEADING_RE_match line = None"
    "COLON_HEADING_RE_match line = None" "DATE_HEADING_RE_match line = None"
    "NUMBERED_HEADING_RE_match line = None"
proof -
  from ALLCAPS_RE_first[OF a] have ne: "line \<noteq> []" and u: "is_upper (hd line)"
    and all: "\<forall>c \<in> set line. is_upper c \<or> is_space c" by blast+
  from upper_facts[OF u] have h: "hd line \<noteq> CHR ''#''" and s: "hd line \<noteq> CHR ''*''"
    and d: "\<not> is_digit (hd line)" by blast+
  show "HEADING_RE_match line = None"
  proof (rule not_Some_None)
    fix m' show "HEADING_RE_match line \<noteq> Some m'"
      using HEADING_RE_first[of line m'] h by blast
  qed
  show "BOLD_HEADING_RE_match line = None"
  proof (rule not_Some_None)
    fix m' show "BOLD_HEADING_RE_match line \<noteq> Some m'"
      using BOLD_RE_first[of line m'] s by blast
  qed
  have nc: "CHR '':'' \<notin> set line"
  proof
    assume "CHR '':'' \<in> set line"
    with all have "is_upper (CHR '':'') \<or> is_space (CHR '':'')" by blast
    then show False by (simp add: is_upper_def is_space_def)
  qed
  show "COLON_HEADING_RE_match line = None"
  proof (rule not_Some_None)
    fix m' show "COLON_HEADING_RE_match line \<noteq> Some m'"
      using COLON_RE_first[of line m'] nc by blast
  qed
  show "DATE_HEADING_RE_match line = None"
  proof (rule not_Some_None)
    fix m' show "DATE_HEADING_RE_match line \<noteq> Some m'"
    proof
      assume "DATE_HEADING_RE_match line = Some m'"
      from DATE_RE_first[OF this] obtain x r where "line = x # r" "is_digit x" by blast
      with d show False by simp
    qed
  qed
  show "NUMBERED_HEADING_RE_match line = None"
  proof (rule not_Some_None)
    fix m' show "NUMBERED_HEADING_RE_match line \<noteq> Some m'"
      using NUMBERED_RE_first[of line m'] d by blast
  qed
qed

lemma NUMBERED_excludes:
  assumes a: "NUMBERED_HEADING_RE_match line = Some m"
  shows "HEADING_RE_match line = None" "BOLD_HEADING_RE_match line = None"
    "COLON_HEADING_RE_match line = None" "DATE_HEADING_RE_match line = None"
    "ALLCAPS_HEADING_RE_match line = None"
proof -
  from NUMBERED_RE_first[OF a] have ne: "line \<noteq> []" and d: "is_digit (hd line)"
    and l: "length (takeWhile is_digit line) \<le> 2" by blast+
  from digit_facts[OF d] have h: "hd line \<noteq> CHR ''#''" and s: "hd line \<noteq> CHR ''*''"
    and u: "\<not> is_upper (hd line)" by blast+
  show "HEADING_RE_match line = None"
  proof (rule not_Some_None)
    fix m' show "HEADING_RE_match line \<noteq> Some m'"
      using HEADING_RE_first[of line m'] h by blast
  qed
  show "BOLD_HEADING_RE_match line = None"
  proof (rule not_Some_None)
    fix m' show "BOLD_HEADING_RE_match line \<noteq> Some m'"
      using BOLD_RE_first[of line m'] s by blast
  qed
  show "COLON_HEADING_RE_match line = None"
  proof (rule not_Some_None)
    fix m' show "COLON_HEADING_RE_match line \<noteq> Some m'"
      using COLON_RE_first[of line m'] u by blast
  qed
  show "ALLCAPS_HEADING_RE_match line = None"
  proof (rule not_Some_None)
    fix m' show "ALLCAPS_HEADING_RE_match line \<noteq> Some m'"
      using ALLCAPS_RE_first[of line m'] u by blast
  qed
  show "DATE_HEADING_RE_match line = None"
  proof (rule not_Some_None)
    fix m' show "DATE_HEADING_RE_match line \<noteq> Some m'"
    proof
      assume "DATE_HEADING_RE_match line = Some m'"
      from DATE_RE_first[OF this] obtain a b c d r where
        e: "line = a # b # c # d # r" and "is_digit a" "is_digit b" "is_digit c" "is_digit d"
        by blast
      then have "takeWhile is_digit line = a # b # c # takeWhile is_digit (d # r)" by simp
      then have "3 \<le> length (takeWhile is_digit line)" by simp
      with l show False by simp
    qed
  qed
qed

section \<open>The filter of the all-caps pattern\<close>

text \<open>
  Claim C5, as the code has it. A line matching the all-caps pattern matches no other
  pattern, and the classifier rejects it exactly when its text contains one of the words
  TASK, TODO, NOTE, IMPORTANT, WARNING, ERROR as a substring, or has more than six
  whitespace-separated words; otherwise it is classified as an all-caps heading with the
  stripped line as its text.
\<close>

theorem allcaps_rejected_on_substring:
  assumes a: "ALLCAPS_HEADING_RE_match line = Some m"
  shows "check_header_patterns line =
     (if list_ex (\<lambda>word. contains word (strip line)) common_non_headers
         \<or> 6 < length (split (strip line))
      then None else Some (Allcaps, strip line, m))"
proof -
  from ALLCAPS_RE_first[OF a] have m: "m = [line]" by blast
  then have g: "group m 1 = line" "group m (Suc 0) = line" by (simp_all add: group_def)
  show ?thesis
    unfolding check_header_patterns_def Let_def
    by (simp add: ALLCAPS_excludes[OF a] a g not_less)
qed

text \<open>
  The claim as stated, that a denylist word inside a longer word does not reject the line,
  fails on \<open>NOTEWORTHY IDEAS\<close>: none of its two words is in the denylist, and the line
  is rejected.
\<close>

theorem allcaps_whole_word_counterexample:
  "ALLCAPS_HEADING_RE_match ''NOTEWORTHY IDEAS'' = Some [''NOTEWORTHY IDEAS'']
   \<and> split ''NOTEWORTHY IDEAS'' = [''NOTEWORTHY'', ''IDEAS'']
   \<and> \<not> list_ex (\<lambda>w. w \<in> set common_non_headers) (split ''NOTEWORTHY IDEAS'')
   \<and> check_header_patterns ''NOTEWORTHY IDEAS'' = None"
  by code_simp

theorem allcaps_rejected_on_substring_witness:
  "ALLCAPS_HEADING_RE_match ''QUARTERLY PLAN'' = Some [''QUARTERLY PLAN'']
   \<and> check_header_patterns ''QUARTERLY PLAN''
       = Some (Allcaps, ''QUARTERLY PLAN'', [''QUARTERLY PLAN''])"
proof -
  have a: "ALLCAPS_HEADING_RE_match ''QUARTERLY PLAN'' = Some [''QUARTERLY PLAN'']"
    by code_simp
  have s: "strip ''QUARTERLY PLAN'' = ''QUARTERLY PLAN''" by code_simp
  have n: "\<not> (list_ex (\<lambda>word. contains word ''QUARTERLY PLAN'') common_non_headers
         \<or> 6 < length (split ''QUARTERLY PLAN''))"
    by code_simp
  from allcaps_rejected_on_substring[OF a] a show ?thesis
    unfolding s using n by simp
qed

section \<open>Numbered headings\<close>

lemma numbered_level_ge2:
  "2 \<le> determine_header_level_by_context bc Numbered htext"
  by (cases bc) (simp_all add: determine_header_level_by_context_def)

text \<open>
  Claim C10. For every line matching the numbered pattern, the first group is one or two
  digits, and the line is classified as a numbered heading exactly when the stripped title
  (the second group) has at least five characters, whatever the length of the prefixed
  text. The heading text is then the number, a period, a space and the stripped title, and
  this prefixed text is what the loop puts after the hash characters of the header line,
  appends to the breadcrumb and passes to \<open>guess_aliases_from_heading\<close>.
\<close>

theorem numbered_heading_text_keeps_number:
  assumes n: "NUMBERED_HEADING_RE_match (lines ! i) = Some m"
    and h: "htext = group m 1 @ ''. '' @ strip (group m 2)"
    and l: "level = header_level Numbered htext m (breadcrumb st) lines i"
  shows "list_all is_digit (group m 1) \<and> 1 \<le> length (group m 1) \<and> length (group m 1) \<le> 2
       \<and> check_header_patterns (lines ! i)
           = (if 5 \<le> length (strip (group m 2)) then Some (Numbered, htext, m) else None)
       \<and> (5 \<le> length (strip (group m 2)) \<longrightarrow>
            (\<exists>st'. loop_body lines rel_path i st = Some st'
               \<and> breadcrumb st' = take (level - 1) (breadcrumb st) @ [htext]
               \<and> out st' = out st
                    @ [OutHeader level (replicate level (CHR ''#'') @ '' '' @ htext)]
                    @ (if prefix ''[DocTitle:'' (next_nonempty (drop (i + 1) lines)) then []
                       else [OutBlock (doc_title st') rel_path (breadcrumb st')
                               (guess_aliases_from_heading htext)])))"
proof -
  let ?line = "lines ! i"
  from NUMBERED_RE_first[OF n] have
    m: "m = [takeWhile is_digit ?line, dropWhile is_space (tl (dropWhile is_digit ?line))]"
    and le: "length (takeWhile is_digit ?line) \<le> 2" and ne: "?line \<noteq> []"
    and d: "is_digit (hd ?line)" by blast+
  from m have g1: "group m 1 = takeWhile is_digit ?line" "group m (Suc 0) = takeWhile is_digit ?line"
    by (simp_all add: group_def)
  have "takeWhile is_digit ?line \<noteq> []" using ne d by (cases ?line) auto
  then have ge: "1 \<le> length (takeWhile is_digit ?line)" by (cases "takeWhile is_digit ?line") auto
  have dig: "list_all is_digit (takeWhile is_digit ?line)"
    by (auto simp: list_all_iff dest: set_takeWhileD)
  have c: "check_header_patterns ?line
           = (if 5 \<le> length (strip (group m 2)) then Some (Numbered, htext, m) else None)"
    unfolding check_header_patterns_def Let_def h
    by (simp add: NUMBERED_excludes[OF n] n g1)
  have run: "\<exists>st'. loop_body lines rel_path i st = Some st'
               \<and> breadcrumb st' = take (level - 1) (breadcrumb st) @ [htext]
               \<and> out st' = out st
                    @ [OutHeader level (replicate level (CHR ''#'') @ '' '' @ htext)]
                    @ (if prefix ''[DocTitle:'' (next_nonempty (drop (i + 1) lines)) then []
                       else [OutBlock (doc_title st') rel_path (breadcrumb st')
                               (guess_aliases_from_heading htext)])"
    if f: "5 \<le> length (strip (group m 2))"
  proof -
    from c f have c': "check_header_patterns ?line = Some (Numbered, htext, m)" by simp
    obtain st' where b: "loop_body lines rel_path i st = Some st'"
      using loop_body_Some by blast
    note fl = loop_body_heading_fields[OF c' b l]
    have "2 \<le> level" unfolding l header_level_def using numbered_level_ge2 by simp
    then have l1: "level \<noteq> 1" by simp
    have bc: "breadcrumb st' = take (level - 1) (breadcrumb st) @ [htext]"
      using fl(2) l1 by simp
    have cv: "convert_to_proper_header htext level Numbered
                = replicate level (CHR ''#'') @ '' '' @ htext"
      by (simp add: convert_to_proper_header_def)
    have "out st' = out st
                    @ [OutHeader level (replicate level (CHR ''#'') @ '' '' @ htext)]
                    @ (if prefix ''[DocTitle:'' (next_nonempty (drop (i + 1) lines)) then []
                       else [OutBlock (doc_title st') rel_path (breadcrumb st')
                               (guess_aliases_from_heading htext)])"
      using fl(3) cv by simp
    with b bc show ?thesis by blast
  qed
  from dig ge le c run show ?thesis unfolding g1 by blast
qed

theorem numbered_heading_text_keeps_number_witness:
  "NUMBERED_HEADING_RE_match ([''# Plan'', ''12. Budget review''] ! 1) = Some [''12'', ''Budget review'']
   \<and> check_header_patterns ([''# Plan'', ''12. Budget review''] ! 1)
       = Some (Numbered, ''12. Budget review'', [''12'', ''Budget review''])
   \<and> loop_body [''# Plan'', ''12. Budget review''] ''p'' 1
         \<lparr>out = [], breadcrumb = [''Plan''], doc_title = ''Plan''\<rparr>
       = Some \<lparr>out = [OutHeader 2 ''## 12. Budget review'',
                       OutBlock ''Plan'' ''p'' [''Plan'', ''12. Budget review'']
                         [''Budget'', ''review'']],
               breadcrumb = [''Plan'', ''12. Budget review''], doc_title = ''Plan''\<rparr>
   \<and> check_header_patterns ''1. Abcd'' = None"
proof -
  let ?lines = "[''# Plan'', ''12. Budget review'']"
  let ?st = "\<lparr>out = [], breadcrumb = [''Plan''], doc_title = ''Plan''\<rparr>"
  have n: "NUMBERED_HEADING_RE_match (?lines ! 1) = Some [''12'', ''Budget review'']"
    by code_simp
  have h: "''12. Budget review''
             = group [''12'', ''Budget review''] 1 @ ''. '' @ strip (group [''12'', ''Budget review''] 2)"
    by code_simp
  have l: "(2::nat) = header_level Numbered ''12. Budget review'' [''12'', ''Budget review'']
                        (breadcrumb ?st) ?lines 1"
    by code_simp
  have v: "loop_body ?lines ''p'' 1 ?st
       = Some \<lparr>out = [OutHeader 2 ''## 12. Budget review'',
                       OutBlock ''Plan'' ''p'' [''Plan'', ''12. Budget review'']
                         [''Budget'', ''review'']],
               breadcrumb = [''Plan'', ''12. Budget review''], doc_title = ''Plan''\<rparr>"
    by code_simp
  have f: "5 \<le> length (strip (group [''12'', ''Budget review''] 2))" by code_simp
  have z: "check_header_patterns ''1. Abcd'' = None" by code_simp
  from numbered_heading_text_keeps_number[OF n h l, of "''p''"] f
  have "check_header_patterns (?lines ! 1)
       = Some (Numbered, ''12. Budget review'', [''12'', ''Budget review''])"
    by presburger
  with n v z show ?thesis by blast
qed

section \<open>The end of the returned text\<close>

lemma splitlines_acc_no_break:
  "\<forall>c \<in> set cur. \<not> is_linebreak c \<Longrightarrow> l \<in> set (splitlines_acc cur s) \<Longrightarrow>
   \<forall>c \<in> set l. \<not> is_linebreak c"
proof (induction cur s rule: splitlines_acc.induct)
  case (1 cur)
  then show ?case by (auto split: if_splits)
next
  case (2 cur c cs)
  show ?case
  proof (cases "is_linebreak c")
    case True
    with "2.prems"(2) have
      "l = cur \<or> l \<in> set (splitlines_acc [] (if c = CR \<and> take 1 cs = [LF] then drop 1 cs else cs))"
      by simp
    then show ?thesis
    proof
      assume "l = cur" with "2.prems"(1) show ?thesis by simp
    next
      assume "l \<in> set (splitlines_acc [] (if c = CR \<and> take 1 cs = [LF] then drop 1 cs else cs))"
      with "2.IH"(1)[OF True] show ?thesis by simp
    qed
  next
    case False
    with "2.prems"(2) have "l \<in> set (splitlines_acc (cur @ [c]) cs)" by simp
    moreover from False "2.prems"(1) have "\<forall>x \<in> set (cur @ [c]). \<not> is_linebreak x" by simp
    ultimately show ?thesis using "2.IH"(2)[OF False] by blast
  qed
qed

lemma splitlines_no_LF: "l \<in> set (splitlines s) \<Longrightarrow> LF \<notin> set l"
proof -
  assume "l \<in> set (splitlines s)"
  then have "\<forall>c \<in> set l. \<not> is_linebreak c"
    unfolding splitlines_def using splitlines_acc_no_break[of "[]" l s] by simp
  moreover have "is_linebreak LF" by (simp add: is_linebreak_def)
  ultimately show ?thesis by blast
qed

lemma join_snoc: "xs \<noteq> [] \<Longrightarrow> join sep (xs @ [y]) = join sep xs @ sep @ y"
  by (induction sep xs rule: join.induct) simp_all

lemma join_ends: "\<exists>u. join sep (xs @ [y]) = u @ y"
proof (cases "xs = []")
  case True
  then show ?thesis by simp
next
  case False
  from join_snoc[OF this] have "join sep (xs @ [y]) = (join sep xs @ sep) @ y" by simp
  then show ?thesis by blast
qed

lemma final_text_Nil: "final_text [] = [LF]"
  by (simp add: final_text_def)

lemma final_text_suffix: "outs \<noteq> [[]] \<Longrightarrow> suffix [LF] (final_text outs)"
proof (cases "outs = [] \<or> last outs \<noteq> []")
  case True
  then have "final_text outs = join [LF] outs @ [LF]" by (simp add: final_text_def)
  then show ?thesis by (simp add: suffix_def)
next
  case False
  assume n: "outs \<noteq> [[]]"
  from False have ne: "outs \<noteq> []" and le: "last outs = []" by simp_all
  from ne have e: "outs = butlast outs @ [last outs]" by simp
  with le n have b: "butlast outs \<noteq> []" by (metis append_Nil)
  from e le have e': "outs = butlast outs @ [[]]" by simp
  have "join [LF] (butlast outs @ [[]]) = join [LF] (butlast outs) @ [LF] @ []"
    by (rule join_snoc[OF b])
  with e' have "join [LF] outs = join [LF] (butlast outs) @ [LF]" by simp
  moreover from False have "final_text outs = join [LF] outs" by (simp add: final_text_def)
  ultimately show ?thesis by (simp add: suffix_def)
qed

lemma final_text_one_newline:
  assumes "y \<noteq> []" and "LF \<notin> set y"
  shows "ends_with_one_newline (final_text (xs @ [y]))"
proof -
  from join_ends obtain u where u: "join [LF] (xs @ [y]) = u @ y" by blast
  from assms(1) have y: "y = butlast y @ [last y]" by simp
  from assms have c: "last y \<noteq> LF" by (metis last_in_set)
  have f: "final_text (xs @ [y]) = (u @ butlast y) @ [last y, LF]"
  proof -
    have "final_text (xs @ [y]) = join [LF] (xs @ [y]) @ [LF]"
      using assms(1) by (simp add: final_text_def)
    also have "\<dots> = u @ y @ [LF]" by (simp add: u)
    also have "\<dots> = u @ (butlast y @ [last y]) @ [LF]" using y by simp
    finally show ?thesis by simp
  qed
  have "suffix [LF] (final_text (xs @ [y]))"
    unfolding f by (simp add: suffix_def)
  moreover have "\<not> suffix [LF, LF] (final_text (xs @ [y]))"
  proof
    assume "suffix [LF, LF] (final_text (xs @ [y]))"
    then obtain v where "(u @ butlast y) @ [last y, LF] = v @ [LF, LF]"
      unfolding f by (auto simp: suffix_def)
    then have "[last y, LF] = [LF, LF]" by (metis append_eq_append_conv length_Cons)
    with c show False by simp
  qed
  ultimately show ?thesis by (simp add: ends_with_one_newline_def)
qed

lemma build_header_block_nonempty: "build_header_block d p b a \<noteq> []"
  by (simp add: build_header_block_def Let_def)

lemma loop_body_last:
  assumes b: "loop_body lines rel_path j s = Some s'"
  shows "out s' \<noteq> []
       \<and> (check_header_patterns (lines ! j) = None \<longrightarrow> last (out s') = OutLine (lines ! j))
       \<and> (check_header_patterns (lines ! j) \<noteq> None \<longrightarrow> out_text (last (out s')) \<noteq> [])"
proof (cases "check_header_patterns (lines ! j)")
  case None
  with b have "s' = s\<lparr>out := out s @ [OutLine (lines ! j)]\<rparr>" by (simp add: loop_body_plain)
  with None show ?thesis by simp
next
  case (Some r)
  obtain pt htext m where r: "r = (pt, htext, m)" by (cases r) auto
  from Some r have c: "check_header_patterns (lines ! j) = Some (pt, htext, m)" by simp
  define level where "level = header_level pt htext m (breadcrumb s) lines j"
  define ph where "ph = (if pt = Markdown then lines ! j
                         else convert_to_proper_header htext level pt)"
  note f = loop_body_heading_fields(3)[OF c b level_def]
  have ph: "ph \<noteq> []"
  proof (cases "pt = Markdown")
    case True
    with check_header_patterns_cases[OF c] have "HEADING_RE_match (lines ! j) = Some m" by auto
    from HEADING_RE_first[OF this] True show ?thesis by (simp add: ph_def)
  next
    case False
    then show ?thesis by (simp add: ph_def convert_to_proper_header_def Let_def)
  qed
  have "out s' \<noteq> [] \<and> out_text (last (out s')) \<noteq> []"
  proof (cases "prefix ''[DocTitle:'' (next_nonempty (drop (j + 1) lines))")
    case True
    with f have "out s' = out s @ [OutHeader level ph]" by (simp add: ph_def)
    with ph show ?thesis by simp
  next
    case False
    with f have "out s' = (out s @ [OutHeader level ph])
                   @ [OutBlock (doc_title s') rel_path (breadcrumb s')
                        (guess_aliases_from_heading htext)]"
      by (simp add: ph_def)
    then show ?thesis by (simp add: build_header_block_nonempty)
  qed
  with Some show ?thesis by simp
qed

lemma process_loop_out_end:
  assumes run: "process_loop lines rel_path 0 (initial_state file_stem) = Some st'"
  shows "length (line_entries (out st')) = length lines"
    and "lines = [] \<Longrightarrow> out st' = []"
    and "lines \<noteq> [] \<Longrightarrow> out st' \<noteq> []"
    and "lines \<noteq> [] \<Longrightarrow> check_header_patterns (last lines) = None \<Longrightarrow>
         last (out st') = OutLine (last lines)"
    and "lines \<noteq> [] \<Longrightarrow> check_header_patterns (last lines) \<noteq> None \<Longrightarrow>
         out_text (last (out st')) \<noteq> []"
proof -
  let ?I = "\<lambda>j s. length (line_entries (out s)) = j
              \<and> (j = 0 \<longrightarrow> out s = [])
              \<and> (0 < j \<longrightarrow> out s \<noteq> []
                   \<and> (check_header_patterns (lines ! (j - 1)) = None \<longrightarrow>
                        last (out s) = OutLine (lines ! (j - 1)))
                   \<and> (check_header_patterns (lines ! (j - 1)) \<noteq> None \<longrightarrow>
                        out_text (last (out s)) \<noteq> []))"
  have init: "?I 0 (initial_state file_stem)"
    by (simp add: initial_state_def line_entries_def)
  have inv: "?I (length lines) st'"
  proof (rule process_loop_invariant[where I = ?I, OF run init])
    fix j s s'
    assume "j < length lines" and i: "?I j s" and b: "loop_body lines rel_path j s = Some s'"
    from loop_body_line_entries[OF b] obtain e where
      "line_entries (out s') = line_entries (out s) @ [e]" by blast
    with i have "length (line_entries (out s')) = Suc j" by simp
    with loop_body_last[OF b] show "?I (Suc j) s'" by simp
  qed simp
  show "length (line_entries (out st')) = length lines" using inv by blast
  show "out st' = []" if "lines = []" using inv that by simp
  have lst: "lines ! (length lines - 1) = last lines" if "lines \<noteq> []"
    using that by (simp add: last_conv_nth)
  show "out st' \<noteq> []" if "lines \<noteq> []" using inv that by simp
  show "last (out st') = OutLine (last lines)"
    if "lines \<noteq> []" "check_header_patterns (last lines) = None"
    using inv that lst by simp
  show "out_text (last (out st')) \<noteq> []"
    if "lines \<noteq> []" "check_header_patterns (last lines) \<noteq> None"
    using inv that lst by simp
qed

text \<open>
  The rewriter returns for every input. What it returns ends in a line feed unless the
  input is one empty line, and in exactly one when the input has no lines or its last
  line is not empty and not a heading.
\<close>

lemma process_markdown_final_newline:
  "\<exists>s. process_markdown md_text rel_path file_stem = Some s
      \<and> (splitlines md_text \<noteq> [[]] \<longrightarrow> suffix [LF] s)
      \<and> (splitlines md_text = []
           \<or> (splitlines md_text \<noteq> [] \<and> last (splitlines md_text) \<noteq> []
               \<and> check_header_patterns (last (splitlines md_text)) = None)
          \<longrightarrow> ends_with_one_newline s)"
proof -
  let ?lines = "splitlines md_text"
  obtain st' where run: "process_loop ?lines rel_path 0 (initial_state file_stem) = Some st'"
    using process_loop_Some by blast
  let ?outs = "map out_text (out st')"
  have pm: "process_markdown md_text rel_path file_stem = Some (final_text ?outs)"
    by (simp add: process_markdown_def run)
  note e = process_loop_out_end[OF run]
  have a: "suffix [LF] (final_text ?outs)" if n: "?lines \<noteq> [[]]"
  proof (rule final_text_suffix, rule notI)
    assume o: "?outs = [[]]"
    then obtain x where x: "out st' = [x]" and tx: "out_text x = []"
      by (cases "out st'") auto
    from x have "length (line_entries (out st')) \<le> 1" by (simp add: line_entries_def)
    with e(1) have len: "length ?lines \<le> 1" by simp
    have ne: "?lines \<noteq> []" using e(2) x by auto
    from len ne obtain l where l: "?lines = [l]"
      by (cases ?lines) auto
    have c: "check_header_patterns (last ?lines) = None"
    proof (rule ccontr)
      assume "check_header_patterns (last ?lines) \<noteq> None"
      from e(5)[OF ne this] x tx show False by simp
    qed
    from e(4)[OF ne c] x l have "x = OutLine l" by simp
    with tx have "l = []" by simp
    with l n show False by simp
  qed
  have b: "ends_with_one_newline (final_text ?outs)" if "?lines = []"
    using e(2)[OF that] by (simp add: final_text_Nil ends_with_one_newline_def suffix_def)
  have c: "ends_with_one_newline (final_text ?outs)"
    if ne: "?lines \<noteq> []" and l: "last ?lines \<noteq> []"
      and u: "check_header_patterns (last ?lines) = None"
  proof -
    from e(3)[OF ne] have "out st' = butlast (out st') @ [last (out st')]" by simp
    with e(4)[OF ne u] have "out st' = butlast (out st') @ [OutLine (last ?lines)]" by simp
    then have "?outs = map out_text (butlast (out st') @ [OutLine (last ?lines)])"
      by (rule arg_cong)
    then have o: "?outs = map out_text (butlast (out st')) @ [last ?lines]"
      by simp
    from ne have "last ?lines \<in> set ?lines" by simp
    then have "LF \<notin> set (last ?lines)" by (rule splitlines_no_LF)
    from final_text_one_newline[OF l this] show ?thesis by (subst o)
  qed
  have d: "ends_with_one_newline (final_text ?outs)"
    if "?lines = [] \<or> (?lines \<noteq> [] \<and> last ?lines \<noteq> []
               \<and> check_header_patterns (last ?lines) = None)"
    using that b c by blast
  show ?thesis
  proof (intro exI conjI impI)
    show "process_markdown md_text rel_path file_stem = Some (final_text ?outs)" by (rule pm)
    show "suffix [LF] (final_text ?outs)" if "?lines \<noteq> [[]]" using that by (rule a)
    show "ends_with_one_newline (final_text ?outs)"
      if "?lines = [] \<or> (?lines \<noteq> [] \<and> last ?lines \<noteq> []
               \<and> check_header_patterns (last ?lines) = None)"
      using that by (rule d)
  qed
qed

section \<open>The order of the checks\<close>

lemma source_patterns_sel:
  "heading_re source_patterns = HEADING_RE_match"
  "bold_re source_patterns = BOLD_HEADING_RE_match"
  "colon_re source_patterns = COLON_HEADING_RE_match"
  "date_re source_patterns = DATE_HEADING_RE_match"
  "numbered_re source_patterns = NUMBERED_HEADING_RE_match"
  "allcaps_re source_patterns = ALLCAPS_HEADING_RE_match"
  "colon_keeps source_patterns = (\<lambda>text. 5 \<le> length text \<and> \<not> prefix ''http'' (lower text))"
  "numbered_keeps source_patterns = (\<lambda>text. 5 \<le> length text)"
  "allcaps_keeps source_patterns
     = (\<lambda>text. \<not> list_ex (\<lambda>word. contains word text) common_non_headers
                \<and> length (split text) \<le> 6)"
  by (simp_all add: source_patterns_def)

lemma check_header_patterns_source:
  "check_header_patterns line = check_header_patterns_with source_patterns line"
  unfolding check_header_patterns_def check_header_patterns_with_def source_patterns_sel
  by (rule refl)

lemma chain_first_accepting:
  "map_option fst (check_header_patterns_with p line) = spec_classify p line"
  unfolding check_header_patterns_with_def spec_classify_def spec_priority_order_def Let_def
  by (simp split: option.splits)

lemma HEADING_excludes:
  assumes a: "HEADING_RE_match line = Some m"
  shows "BOLD_HEADING_RE_match line = None" "COLON_HEADING_RE_match line = None"
    "DATE_HEADING_RE_match line = None"
proof -
  from HEADING_RE_first[OF a] have h: "hd line = CHR ''#''" by blast
  show "BOLD_HEADING_RE_match line = None"
  proof (rule not_Some_None)
    fix m' show "BOLD_HEADING_RE_match line \<noteq> Some m'"
      using BOLD_RE_first[of line m'] h by auto
  qed
  show "COLON_HEADING_RE_match line = None"
  proof (rule not_Some_None)
    fix m' show "COLON_HEADING_RE_match line \<noteq> Some m'"
    proof
      assume "COLON_HEADING_RE_match line = Some m'"
      from COLON_RE_first[OF this] h have "is_upper (CHR ''#'')" by simp
      then show False by (simp add: is_upper_def)
    qed
  qed
  show "DATE_HEADING_RE_match line = None"
  proof (rule not_Some_None)
    fix m' show "DATE_HEADING_RE_match line \<noteq> Some m'"
    proof
      assume "DATE_HEADING_RE_match line = Some m'"
      from DATE_RE_first[OF this] obtain x r where "line = x # r" "is_digit x" by blast
      with h have "is_digit (CHR ''#'')" by simp
      then show False by (simp add: is_digit_def)
    qed
  qed
qed

lemma BOLD_excludes:
  assumes a: "BOLD_HEADING_RE_match line = Some m"
  shows "COLON_HEADING_RE_match line = None" "DATE_HEADING_RE_match line = None"
proof -
  from BOLD_RE_first[OF a] have h: "hd line = CHR ''*''" by blast
  show "COLON_HEADING_RE_match line = None"
  proof (rule not_Some_None)
    fix m' show "COLON_HEADING_RE_match line \<noteq> Some m'"
    proof
      assume "COLON_HEADING_RE_match line = Some m'"
      from COLON_RE_first[OF this] h have "is_upper (CHR ''*'')" by simp
      then show False by (simp add: is_upper_def)
    qed
  qed
  show "DATE_HEADING_RE_match line = None"
  proof (rule not_Some_None)
    fix m' show "DATE_HEADING_RE_match line \<noteq> Some m'"
    proof
      assume "DATE_HEADING_RE_match line = Some m'"
      from DATE_RE_first[OF this] obtain x r where "line = x # r" "is_digit x" by blast
      with h have "is_digit (CHR ''*'')" by simp
      then show False by (simp add: is_digit_def)
    qed
  qed
qed

lemma COLON_excludes:
  assumes a: "COLON_HEADING_RE_match line = Some m"
  shows "DATE_HEADING_RE_match line = None"
proof (rule not_Some_None)
  fix m' show "DATE_HEADING_RE_match line \<noteq> Some m'"
  proof
    assume "DATE_HEADING_RE_match line = Some m'"
    from DATE_RE_first[OF this] obtain x r where "line = x # r" "is_digit x" by blast
    then have "is_digit (hd line)" by simp
    with digit_facts[of "hd line"] COLON_RE_first[OF a] show False by blast
  qed
qed

lemma source_patterns_one_match:
  "length (filter (\<lambda>r. r \<noteq> None)
     [HEADING_RE_match line, BOLD_HEADING_RE_match line, COLON_HEADING_RE_match line,
      DATE_HEADING_RE_match line, NUMBERED_HEADING_RE_match line,
      ALLCAPS_HEADING_RE_match line]) \<le> 1"
proof (cases "ALLCAPS_HEADING_RE_match line")
  case (Some m)
  from ALLCAPS_excludes[OF Some] Some show ?thesis by simp
next
  case a: None
  show ?thesis
  proof (cases "NUMBERED_HEADING_RE_match line")
    case (Some m)
    from NUMBERED_excludes[OF Some] Some show ?thesis by simp
  next
    case n: None
    show ?thesis
    proof (cases "HEADING_RE_match line")
      case (Some m)
      from HEADING_excludes[OF Some] Some a n show ?thesis by simp
    next
      case h: None
      show ?thesis
      proof (cases "BOLD_HEADING_RE_match line")
        case (Some m)
        from BOLD_excludes[OF Some] Some a n h show ?thesis by simp
      next
        case b: None
        show ?thesis
        proof (cases "COLON_HEADING_RE_match line")
          case (Some m)
          from COLON_excludes[OF Some] Some a n h b show ?thesis by simp
        next
          case None
          with a n h b show ?thesis by simp
        qed
      qed
    qed
  qed
qed

section \<open>A line inside the returned text\<close>

lemma join_Cons: "zs \<noteq> [] \<Longrightarrow> join sep (x # zs) = x @ sep @ join sep zs"
  by (cases zs) simp_all

lemma join_prefix_lines:
  "zs \<noteq> [] \<Longrightarrow> join sep (xs @ zs) = concat (map (\<lambda>x. x @ sep) xs) @ join sep zs"
proof (induction xs)
  case Nil
  then show ?case by simp
next
  case (Cons x xs)
  from Cons.prems have "xs @ zs \<noteq> []" by simp
  from join_Cons[OF this] have "join sep (x # (xs @ zs)) = x @ sep @ join sep (xs @ zs)" .
  with Cons.IH[OF Cons.prems] show ?case by simp
qed

lemma final_text_mid:
  assumes y: "y \<noteq> []"
  shows "\<exists>post. final_text (xs @ [y] @ ys)
           = concat (map (\<lambda>x. x @ [LF]) xs) @ y @ [LF] @ post"
proof -
  let ?pre = "concat (map (\<lambda>x. x @ [LF]) xs)"
  have j: "join [LF] (xs @ [y] @ ys) = ?pre @ join [LF] ([y] @ ys)"
    by (rule join_prefix_lines) simp
  show ?thesis
  proof (cases "ys = []")
    case True
    with y have "final_text (xs @ [y] @ ys) = join [LF] (xs @ [y] @ ys) @ [LF]"
      by (simp add: final_text_def)
    with j True have "final_text (xs @ [y] @ ys) = ?pre @ y @ [LF] @ []" by simp
    then show ?thesis by blast
  next
    case False
    from join_Cons[OF False] have "join [LF] ([y] @ ys) = y @ [LF] @ join [LF] ys" by simp
    with j have "join [LF] (xs @ [y] @ ys) = ?pre @ y @ [LF] @ join [LF] ys" by simp
    then have "final_text (xs @ [y] @ ys)
        = ?pre @ y @ [LF] @ (join [LF] ys
            @ (if xs @ [y] @ ys = [] \<or> last (xs @ [y] @ ys) \<noteq> [] then [LF] else []))"
      unfolding final_text_def by simp
    then show ?thesis by blast
  qed
qed

lemma filter_nth_split:
  "i < length (filter P xs) \<Longrightarrow>
   \<exists>before after. xs = before @ [filter P xs ! i] @ after \<and> length (filter P before) = i"
proof (induction xs arbitrary: i)
  case Nil
  then show ?case by simp
next
  case (Cons x xs)
  show ?case
  proof (cases "P x")
    case True
    show ?thesis
    proof (cases i)
      case 0
      with True have "x # xs = [] @ [filter P (x # xs) ! i] @ xs \<and> length (filter P []) = i"
        by simp
      then show ?thesis by blast
    next
      case (Suc k)
      with Cons.prems True have "k < length (filter P xs)" by simp
      from Cons.IH[OF this] obtain before after where
        b: "xs = before @ [filter P xs ! k] @ after" and l: "length (filter P before) = k"
        by blast
      from b have "x # xs = (x # before) @ [filter P xs ! k] @ after" by simp
      moreover from True Suc have "filter P (x # xs) ! i = filter P xs ! k" by simp
      moreover from True l Suc have "length (filter P (x # before)) = i" by simp
      ultimately show ?thesis by metis
    qed
  next
    case False
    with Cons.prems have "i < length (filter P xs)" by simp
    from Cons.IH[OF this] obtain before after where
      b: "xs = before @ [filter P xs ! i] @ after" and l: "length (filter P before) = i"
      by blast
    from b have "x # xs = (x # before) @ [filter P xs ! i] @ after" by simp
    moreover from False have "filter P (x # xs) ! i = filter P xs ! i" by simp
    moreover from False l have "length (filter P (x # before)) = i" by simp
    ultimately show ?thesis by metis
  qed
qed

section \<open>Priority of the patterns\<close>

text \<open>
  Claim C7. Whatever the six patterns and the three rejection tests are, also when several
  patterns accept the same line, the kind returned by the checks of
  \<open>check_header_patterns\<close> is the first of markdown, bold, colon, date, numbered, allcaps
  whose pattern matches the line and whose rejection test keeps the text; no kind is
  returned when there is none. \<open>check_header_patterns\<close> is these checks on the patterns
  of the source, so the kind it returns is the first kind of that order that accepts the
  line. By \<open>source_patterns_one_match\<close> at most one pattern of the source matches a line,
  which is why the order shows only on other patterns.
\<close>

theorem classifier_priority_order:
  "map_option fst (check_header_patterns_with p line) = spec_classify p line
   \<and> check_header_patterns line = check_header_patterns_with source_patterns line
   \<and> map_option fst (check_header_patterns line) = spec_classify source_patterns line"
proof -
  have g: "map_option fst (check_header_patterns_with q line) = spec_classify q line" for q
    by (rule chain_first_accepting)
  have s: "check_header_patterns line = check_header_patterns_with source_patterns line"
    by (rule check_header_patterns_source)
  from g[of p] s g[of source_patterns] show ?thesis by simp
qed

theorem classifier_priority_order_witness:
  "map_option fst (check_header_patterns_with ambiguous_patterns ''2024 03 15'') = Some Markdown
   \<and> spec_classify ambiguous_patterns ''2024 03 15'' = Some Markdown
   \<and> filter (\<lambda>kind. spec_accepts ambiguous_patterns kind ''2024 03 15'') spec_priority_order
       = [Markdown, Bold, Colon, Date, Numbered, Allcaps]
   \<and> map_option fst
        (check_header_patterns_with
           (ambiguous_patterns\<lparr>heading_re := (\<lambda>line. None), bold_re := (\<lambda>line. None),
                                colon_keeps := (\<lambda>text. False)\<rparr>) ''2024 03 15'') = Some Date
   \<and> map_option fst (check_header_patterns ''2024 03 15'') = Some Date"
proof -
  let ?q = "ambiguous_patterns\<lparr>heading_re := (\<lambda>line. None), bold_re := (\<lambda>line. None),
                                colon_keeps := (\<lambda>text. False)\<rparr>"
  have a: "spec_classify ambiguous_patterns ''2024 03 15'' = Some Markdown" by code_simp
  have f: "filter (\<lambda>kind. spec_accepts ambiguous_patterns kind ''2024 03 15'') spec_priority_order
       = [Markdown, Bold, Colon, Date, Numbered, Allcaps]" by code_simp
  have b: "spec_classify ?q ''2024 03 15'' = Some Date" by code_simp
  have c: "spec_classify source_patterns ''2024 03 15'' = Some Date" by code_simp
  note T1 = classifier_priority_order[of ambiguous_patterns "''2024 03 15''"]
  note T2 = classifier_priority_order[of ?q "''2024 03 15''"]
  have 1: "map_option fst (check_header_patterns_with ambiguous_patterns ''2024 03 15'')
             = Some Markdown"
    using T1[THEN conjunct1] by (simp only: a)
  have 2: "map_option fst (check_header_patterns_with ?q ''2024 03 15'') = Some Date"
    using T2[THEN conjunct1] by (simp only: b)
  have 3: "map_option fst (check_header_patterns ''2024 03 15'') = Some Date"
    using T1[THEN conjunct2, THEN conjunct2] by (simp only: c)
  from 1 a f 2 3 show ?thesis by blast
qed

section \<open>Markdown headings pass through\<close>

text \<open>
  Claim C8. For every input document and every line of it that matches the markdown
  heading pattern, the rewriter returns a text in which that line stands unchanged,
  character for character, as a whole line: the returned text is the entries emitted
  before it, each followed by a line feed, then the line itself and a line feed, then the
  rest. Among the entries before it, those that are not metadata blocks are as many as
  the lines before it; its own entry in \<open>out\<close> is a header whose level is the number of
  hash characters. A metadata block may follow it.
\<close>

theorem markdown_heading_passthrough:
  assumes i: "i < length (splitlines md_text)"
    and m: "HEADING_RE_match (splitlines md_text ! i) = Some m"
  shows "\<exists>st before after post.
           process_loop (splitlines md_text) rel_path 0 (initial_state file_stem) = Some st
         \<and> out st = before @ [OutHeader (length (group m 1)) (splitlines md_text ! i)] @ after
         \<and> length (line_entries before) = i
         \<and> process_markdown md_text rel_path file_stem
             = Some (concat (map (\<lambda>e. out_text e @ [LF]) before)
                     @ (splitlines md_text ! i) @ [LF] @ post)"
proof -
  let ?lines = "splitlines md_text"
  let ?line = "?lines ! i"
  let ?e = "OutHeader (length (group m 1)) ?line"
  obtain st where run: "process_loop ?lines rel_path 0 (initial_state file_stem) = Some st"
    using process_loop_Some by blast
  have pm: "process_markdown md_text rel_path file_stem
              = Some (final_text (map out_text (out st)))"
    by (simp add: process_markdown_def run)
  from run_line_entries[OF run i m] have len: "length (line_entries (out st)) = length ?lines"
    and nth: "line_entries (out st) ! i = ?e" by blast+
  from i len have "i < length (filter (\<lambda>e. \<not> is_block e) (out st))"
    by (simp add: line_entries_def)
  from filter_nth_split[OF this] obtain before after where
    o: "out st = before @ [filter (\<lambda>e. \<not> is_block e) (out st) ! i] @ after"
    and b: "length (filter (\<lambda>e. \<not> is_block e) before) = i"
    by blast
  from nth have "filter (\<lambda>e. \<not> is_block e) (out st) ! i = ?e" by (simp add: line_entries_def)
  with o have o': "out st = before @ [?e] @ after" by simp
  from b have b': "length (line_entries before) = i" by (simp add: line_entries_def)
  from HEADING_RE_first[OF m] have ne: "?line \<noteq> []" by blast
  have "map out_text (out st) = map out_text before @ [?line] @ map out_text after"
    by (subst o') simp
  moreover from final_text_mid[OF ne, of "map out_text before" "map out_text after"]
  obtain post where
    "final_text (map out_text before @ [?line] @ map out_text after)
       = concat (map (\<lambda>x. x @ [LF]) (map out_text before)) @ ?line @ [LF] @ post"
    by blast
  ultimately have "final_text (map out_text (out st))
       = concat (map (\<lambda>e. out_text e @ [LF]) before) @ ?line @ [LF] @ post"
    by (simp add: comp_def)
  with pm have "process_markdown md_text rel_path file_stem
             = Some (concat (map (\<lambda>e. out_text e @ [LF]) before) @ ?line @ [LF] @ post)"
    by simp
  with run o' b' show ?thesis by blast
qed

theorem markdown_heading_passthrough_witness:
  "splitlines (''intro'' @ [LF] @ ''##  Plan  '' @ [LF] @ ''more'') = [''intro'', ''##  Plan  '', ''more'']
   \<and> HEADING_RE_match ''##  Plan  '' = Some [''##'', ''Plan  '']
   \<and> process_markdown (''intro'' @ [LF] @ ''##  Plan  '' @ [LF] @ ''more'') ''p'' ''f''
       = Some (''intro'' @ [LF] @ ''##  Plan  '' @ [LF]
               @ ''[DocTitle: f]'' @ [LF] @ ''[Path: p]'' @ [LF] @ ''[Section: Plan]'' @ [LF]
               @ ''[Aliases: Plan]'' @ [LF, LF, LF] @ ''more'' @ [LF])"
proof -
  define md where "md = ''intro'' @ [LF] @ ''##  Plan  '' @ [LF] @ ''more''"
  define res where "res = ''intro'' @ [LF] @ ''##  Plan  '' @ [LF]
               @ ''[DocTitle: f]'' @ [LF] @ ''[Path: p]'' @ [LF] @ ''[Section: Plan]'' @ [LF]
               @ ''[Aliases: Plan]'' @ [LF, LF, LF] @ ''more'' @ [LF]"
  have s: "splitlines md = [''intro'', ''##  Plan  '', ''more'']" unfolding md_def by code_simp
  have h: "HEADING_RE_match ''##  Plan  '' = Some [''##'', ''Plan  '']" by code_simp
  have v: "process_markdown md ''p'' ''f'' = Some res" unfolding md_def res_def by code_simp
  have i: "1 < length (splitlines md)" unfolding s by simp
  have l: "splitlines md ! 1 = ''##  Plan  ''" unfolding s by simp
  have m: "HEADING_RE_match (splitlines md ! 1) = Some [''##'', ''Plan  '']"
    unfolding l by (rule h)
  from markdown_heading_passthrough[OF i m, of "''p''" "''f''"]
  obtain before post where
    "process_markdown md ''p'' ''f''
       = Some (concat (map (\<lambda>e. out_text e @ [LF]) before) @ (splitlines md ! 1) @ [LF] @ post)"
    by blast
  with v have "res = concat (map (\<lambda>e. out_text e @ [LF]) before) @ ''##  Plan  '' @ [LF] @ post"
    unfolding l by simp
  with s h v show ?thesis unfolding md_def res_def by blast
qed

section \<open>The final line feed\<close>

text \<open>
  Claim C3 does not hold of the code. The rewriter does return for every input, and the
  empty document gives a single line feed; but for the input of one line feed it returns
  the empty string, which ends in no line feed, and for the document \<open># T\<close> it returns
  a text that ends in the metadata block followed by three line feeds.
\<close>

theorem final_newline_missing_or_repeated:
  "(\<exists>s. process_markdown md_text rel_path file_stem = Some s)
   \<and> process_markdown [] ''p'' ''f'' = Some [LF]
   \<and> process_markdown [LF] ''p'' ''f'' = Some []
   \<and> \<not> ends_with_one_newline []
   \<and> process_markdown ''# T'' ''p'' ''f''
       = Some (''# T'' @ [LF] @ ''[DocTitle: T]'' @ [LF] @ ''[Path: p]'' @ [LF]
               @ ''[Section: T]'' @ [LF, LF, LF])
   \<and> \<not> ends_with_one_newline (''# T'' @ [LF] @ ''[DocTitle: T]'' @ [LF] @ ''[Path: p]'' @ [LF]
               @ ''[Section: T]'' @ [LF, LF, LF])"
proof -
  obtain st where "process_loop (splitlines md_text) rel_path 0 (initial_state file_stem) = Some st"
    using process_loop_Some by blast
  then have t: "\<exists>s. process_markdown md_text rel_path file_stem = Some s"
    by (simp add: process_markdown_def)
  have e: "process_markdown [] ''p'' ''f'' = Some [LF]
   \<and> process_markdown [LF] ''p'' ''f'' = Some []
   \<and> \<not> ends_with_one_newline []
   \<and> process_markdown ''# T'' ''p'' ''f''
       = Some (''# T'' @ [LF] @ ''[DocTitle: T]'' @ [LF] @ ''[Path: p]'' @ [LF]
               @ ''[Section: T]'' @ [LF, LF, LF])
   \<and> \<not> ends_with_one_newline (''# T'' @ [LF] @ ''[DocTitle: T]'' @ [LF] @ ''[Path: p]'' @ [LF]
               @ ''[Section: T]'' @ [LF, LF, LF])"
    by code_simp
  from t e show ?thesis by (rule conjI)
qed

end
